theory Spec2Isabelle
  imports Main "HOL-Library.Product_Lexorder" "HOL-Library.Multiset"
begin

section \<open>Database backup rotation of the deployment manager (backup.py)\<close>

text \<open>
  The theory embeds the catalogue and rotation code of \<^verbatim>\<open>backup.py\<close>:
  \<^verbatim>\<open>parse_backup_date\<close>, \<^verbatim>\<open>get_existing_backups\<close>, \<^verbatim>\<open>should_backup\<close> and
  \<^verbatim>\<open>rotate_backups\<close>. The directory is read through \<^verbatim>\<open>os.listdir\<close>; the model takes
  that listing as an argument (\<open>None\<close> when the directory does not exist), and the
  clock reading \<^verbatim>\<open>datetime.now().date()\<close> as the argument \<open>now\<close>. The removal of the
  files of \<^verbatim>\<open>to_delete\<close> is left to the caller of the model: \<open>rotate_backups\<close>
  returns the two collections the source builds.
\<close>

subsection \<open>Calendar dates of the Python library\<close>

text \<open>
  A \<^verbatim>\<open>datetime.date\<close> is the triple (year, month, day); Python orders dates as these
  triples, lexicographically, which is the order of the product type here. The day
  number \<open>toordinal\<close> follows \<^verbatim>\<open>_ymd2ord\<close> of the library; a difference of two dates
  is the difference of their day numbers.
\<close>

type_synonym date = "int \<times> int \<times> int"

datatype error = ValueError | OverflowError | IndexError

definition year :: "date \<Rightarrow> int" where
  "year d = fst d"

definition month :: "date \<Rightarrow> int" where
  "month d = fst (snd d)"

definition day :: "date \<Rightarrow> int" where
  "day d = snd (snd d)"

definition is_leap :: "int \<Rightarrow> bool" where
  "is_leap y = (y mod 4 = 0 \<and> (y mod 100 \<noteq> 0 \<or> y mod 400 = 0))"

definition DAYS_IN_MONTH :: "int list" where
  "DAYS_IN_MONTH = [-1, 31, 28, 31, 30, 31, 30, 31, 31, 30, 31, 30, 31]"

definition DAYS_BEFORE_MONTH :: "int list" where
  "DAYS_BEFORE_MONTH = [-1, 0, 31, 59, 90, 120, 151, 181, 212, 243, 273, 304, 334]"

definition days_before_year :: "int \<Rightarrow> int" where
  "days_before_year y = (let y1 = y - 1 in y1 * 365 + y1 div 4 - y1 div 100 + y1 div 400)"

definition days_in_month :: "int \<Rightarrow> int \<Rightarrow> int" where
  "days_in_month y m = (if m = 2 \<and> is_leap y then 29 else DAYS_IN_MONTH ! nat m)"

definition days_before_month :: "int \<Rightarrow> int \<Rightarrow> int" where
  "days_before_month y m =
     DAYS_BEFORE_MONTH ! nat m + (if 2 < m \<and> is_leap y then 1 else 0)"

definition toordinal :: "date \<Rightarrow> int" where
  "toordinal d = days_before_year (year d) + days_before_month (year d) (month d) + day d"

text \<open>
  \<^verbatim>\<open>date - timedelta(days=n)\<close> is the date whose day number is \<open>n\<close> less; the library
  raises OverflowError when that number is below 1 (before 0001-01-01). The model keeps
  the result as a day number: a date is on or after it when its own day number is.
\<close>

definition date_minus_days :: "date \<Rightarrow> int \<Rightarrow> error + int" where
  "date_minus_days d n =
     (let o1 = toordinal d - n in if 0 < o1 then Inr o1 else Inl OverflowError)"

subsection \<open>Reading the date of a file name\<close>

text \<open>
  A file name is a \<open>string\<close>, each \<open>char\<close> standing for one code point below 256. Among
  these the decimal digits that \<^verbatim>\<open>\d\<close> matches are the ten characters 0 to 9;
  Python also matches the decimal digits of other scripts, which lie above 255, so that
  file names with such characters are outside this model.
\<close>

definition is_digit :: "char \<Rightarrow> bool" where
  "is_digit c = (c \<in> set ''0123456789'')"

definition digit_value :: "char \<Rightarrow> int" where
  "digit_value c = int (of_char c) - 48"

definition number_of :: "string \<Rightarrow> int" where
  "number_of s = foldl (\<lambda>n c. 10 * n + digit_value c) 0 s"

text \<open>The text of a date, \<^verbatim>\<open>\d{4}-\d{2}-\d{2}\<close>: ten characters.\<close>

definition date_text :: "string \<Rightarrow> bool" where
  "date_text s =
     (length s = 10 \<and> list_all is_digit (take 4 s) \<and> s ! 4 = CHR ''-''
      \<and> list_all is_digit (take 2 (drop 5 s)) \<and> s ! 7 = CHR ''-''
      \<and> list_all is_digit (drop 8 s))"

text \<open>
  \<^verbatim>\<open>re.search(r'\.(\d{4}-\d{2}-\d{2})$', filename)\<close>: the group of the match, if there
  is one. In Python \<^verbatim>\<open>$\<close> matches at the end of the string and also just before a
  newline that is its last character.
\<close>

definition search_date :: "string \<Rightarrow> string option" where
  "search_date filename =
     (let s = (if filename \<noteq> [] \<and> last filename = CHR 0x0A then butlast filename
               else filename);
          n = length s
      in if 11 \<le> n \<and> s ! (n - 11) = CHR ''.'' \<and> date_text (drop (n - 10) s)
         then Some (drop (n - 10) s) else None)"

text \<open>
  \<^verbatim>\<open>datetime.strptime(text, "%Y-%m-%d").date()\<close> on a text of the shape above: the
  month must be 01 to 12 and the day 01 to 31 for the format to match, and the date must
  exist (year at least 1, day within the month); otherwise ValueError is raised.
\<close>

definition strptime_date :: "string \<Rightarrow> error + date" where
  "strptime_date s =
     (let y = number_of (take 4 s); m = number_of (take 2 (drop 5 s));
          d = number_of (drop 8 s)
      in if m < 1 \<or> 12 < m \<or> d < 1 \<or> 31 < d then Inl ValueError
         else if y < 1 \<or> days_in_month y m < d then Inl ValueError
         else Inr (y, m, d))"

definition parse_backup_date :: "string \<Rightarrow> error + date option" where
  "parse_backup_date filename =
     (case search_date filename of
        Some g \<Rightarrow> (case strptime_date g of Inl e \<Rightarrow> Inl e | Inr d \<Rightarrow> Inr (Some d))
      | None \<Rightarrow> Inr None)"

subsection \<open>The catalogue of a directory\<close>

text \<open>A backup is the tuple (file name, date, path) of the source.\<close>

type_synonym backup = "string \<times> date \<times> string"

definition fname :: "backup \<Rightarrow> string" where
  "fname b = fst b"

definition bdate :: "backup \<Rightarrow> date" where
  "bdate b = fst (snd b)"

definition bpath :: "backup \<Rightarrow> string" where
  "bpath b = snd (snd b)"

text \<open>
  \<^verbatim>\<open>os.path.join\<close> of a directory and a name, with the separator \<^verbatim>\<open>/\<close>: a name that
  starts with the separator replaces the directory, which no name read by
  \<^verbatim>\<open>os.listdir\<close> does.
\<close>

definition path_join :: "string \<Rightarrow> string \<Rightarrow> string" where
  "path_join dir f =
     (if f \<noteq> [] \<and> hd f = CHR ''/'' then f
      else if dir = [] \<or> last dir = CHR ''/'' then dir @ f
      else dir @ ''/'' @ f)"

text \<open>The loop over the listing, with the list \<^verbatim>\<open>backups\<close> it appends to.\<close>

fun collect_backups :: "string \<Rightarrow> string list \<Rightarrow> backup list \<Rightarrow> error + backup list" where
  "collect_backups app_dir [] backups = Inr backups"
| "collect_backups app_dir (f # fs) backups =
     (case parse_backup_date f of
        Inl e \<Rightarrow> Inl e
      | Inr None \<Rightarrow> collect_backups app_dir fs backups
      | Inr (Some d) \<Rightarrow> collect_backups app_dir fs (backups @ [(f, d, path_join app_dir f)]))"

text \<open>
  \<^verbatim>\<open>backups.sort(key=lambda x: x[1], reverse=True)\<close>: a stable sort that leaves
  entries of equal date in their original order.
\<close>

definition sort_newest_first :: "backup list \<Rightarrow> backup list" where
  "sort_newest_first backups = rev (sort_key bdate (rev backups))"

definition get_existing_backups :: "string \<Rightarrow> string list option \<Rightarrow> error + backup list" where
  "get_existing_backups app_dir listing =
     (case listing of
        None \<Rightarrow> Inr []
      | Some fs \<Rightarrow>
          (case collect_backups app_dir fs [] of
             Inl e \<Rightarrow> Inl e
           | Inr backups \<Rightarrow> Inr (sort_newest_first backups)))"

subsection \<open>The gate\<close>

definition should_backup :: "string \<Rightarrow> string list option \<Rightarrow> bool \<Rightarrow> date \<Rightarrow> error + bool" where
  "should_backup app_dir listing force now =
     (if force then Inr True
      else case get_existing_backups app_dir listing of
             Inl e \<Rightarrow> Inl e
           | Inr [] \<Rightarrow> Inr True
           | Inr (newest # _) \<Rightarrow>
               (let days_old = toordinal now - toordinal (bdate newest)
                in if days_old \<le> 7 then Inr False else Inr True))"

subsection \<open>Rotation\<close>

type_synonym month_key = "int \<times> int"

text \<open>
  \<^verbatim>\<open>monthly\<close> is a \<^verbatim>\<open>defaultdict(list)\<close>: an association list in the order the keys were
  first used; a key that is absent reads as the empty list.
\<close>

type_synonym monthly = "(month_key \<times> backup list) list"

fun monthly_append :: "month_key \<Rightarrow> backup \<Rightarrow> monthly \<Rightarrow> monthly" where
  "monthly_append k b [] = [(k, [b])]"
| "monthly_append k b ((k', bs) # m) =
     (if k = k' then (k', bs @ [b]) # m else (k', bs) # monthly_append k b m)"

definition monthly_get :: "monthly \<Rightarrow> month_key \<Rightarrow> backup list" where
  "monthly_get m k = (case map_of m k of None \<Rightarrow> [] | Some bs \<Rightarrow> bs)"

fun group_by_month :: "backup list \<Rightarrow> monthly \<Rightarrow> monthly" where
  "group_by_month [] m = m"
| "group_by_month (b # rest) m =
     group_by_month rest (monthly_append (year (bdate b), month (bdate b)) b m)"

text \<open>\<^verbatim>\<open>sorted(monthly.keys(), reverse=True)\<close>\<close>

definition sorted_keys_desc :: "monthly \<Rightarrow> month_key list" where
  "sorted_keys_desc m = rev (sort_key (\<lambda>k. k) (rev (map fst m)))"

text \<open>
  The loop over the months. Its state is \<^verbatim>\<open>to_keep\<close>, \<^verbatim>\<open>months_kept\<close> and, for the
  statements about the control flow, the list of the month keys whose body has run
  (a record of the iterations, which the source does not store). \<^verbatim>\<open>break\<close> returns
  the state; \<^verbatim>\<open>month_backups[0]\<close> raises IndexError on an empty list.
\<close>

type_synonym loop_state = "string set \<times> nat \<times> month_key list"

fun monthly_loop :: "monthly \<Rightarrow> int \<Rightarrow> month_key list \<Rightarrow> loop_state \<Rightarrow> error + loop_state" where
  "monthly_loop m cutoff [] st = Inr st"
| "monthly_loop m cutoff (k # ks) (to_keep, months_kept, visited) =
     (if 12 \<le> months_kept then Inr (to_keep, months_kept, visited)
      else case sort_key bdate (monthly_get m k) of
             [] \<Rightarrow> Inl IndexError
           | oldest # _ \<Rightarrow>
               if cutoff \<le> toordinal (bdate oldest)
               then monthly_loop m cutoff ks (insert (bpath oldest) to_keep, months_kept + 1, visited @ [k])
               else monthly_loop m cutoff ks (to_keep, months_kept, visited @ [k]))"

text \<open>
  Lines 83 to 110 of the source: the set \<^verbatim>\<open>to_keep\<close> after the four most recent
  backups and the months have been added, with the counter and the record of the loop.
\<close>

definition keep_tiers :: "backup list \<Rightarrow> date \<Rightarrow> error + loop_state" where
  "keep_tiers backups now =
     (let to_keep = set (map bpath (take 4 backups));
          m = group_by_month (drop 4 backups) []
      in case date_minus_days now 365 of
           Inl e \<Rightarrow> Inl e
         | Inr cutoff \<Rightarrow> monthly_loop m cutoff (sorted_keys_desc m) (to_keep, 0, []))"

text \<open>
  The decision of \<^verbatim>\<open>rotate_backups\<close> on a catalogue: the set \<^verbatim>\<open>to_keep\<close> of paths and
  the list \<^verbatim>\<open>to_delete\<close> of (file name, path). With at most four backups the source
  returns before it builds either and removes nothing: every path stays.
\<close>

definition rotate_decision :: "backup list \<Rightarrow> date \<Rightarrow> error + (string set \<times> (string \<times> string) list)" where
  "rotate_decision backups now =
     (if length backups \<le> 4 then Inr (set (map bpath backups), [])
      else case keep_tiers backups now of
             Inl e \<Rightarrow> Inl e
           | Inr (to_keep, months_kept, visited) \<Rightarrow>
               Inr (to_keep,
                    map (\<lambda>b. (fname b, bpath b)) (filter (\<lambda>b. bpath b \<notin> to_keep) backups)))"

definition rotate_backups :: "string \<Rightarrow> string list option \<Rightarrow> date \<Rightarrow> error + (string set \<times> (string \<times> string) list)" where
  "rotate_backups app_dir listing now =
     (case get_existing_backups app_dir listing of
        Inl e \<Rightarrow> Inl e
      | Inr backups \<Rightarrow> rotate_decision backups now)"

subsection \<open>Vocabulary of the statements\<close>

text \<open>
  The month of a backup, the backup the loop picks in a month (the first of the group
  sorted by date) and the test it applies to that backup.
\<close>

definition month_of :: "backup \<Rightarrow> month_key" where
  "month_of b = (year (bdate b), month (bdate b))"

definition oldest_in :: "monthly \<Rightarrow> month_key \<Rightarrow> backup" where
  "oldest_in m k = hd (sort_key bdate (monthly_get m k))"

definition within_cutoff :: "monthly \<Rightarrow> int \<Rightarrow> month_key \<Rightarrow> bool" where
  "within_cutoff m cutoff k = (cutoff \<le> toordinal (bdate (oldest_in m k)))"

text \<open>
  The dates that exist, and the length of a year. Every date that \<open>strptime_date\<close>
  returns exists, and on such dates the order of the day numbers is the order of the
  triples, so that the comparison with the cut-off can be made on day numbers.
\<close>

definition valid_date :: "date \<Rightarrow> bool" where
  "valid_date d =
     (1 \<le> year d \<and> 1 \<le> month d \<and> month d \<le> 12 \<and> 1 \<le> day d
      \<and> day d \<le> days_in_month (year d) (month d))"

definition days_in_year :: "int \<Rightarrow> int" where
  "days_in_year y = (if is_leap y then 366 else 365)"

text \<open>The entry that the loop over the listing appends for a file name, if any.\<close>

definition entry_of :: "string \<Rightarrow> string \<Rightarrow> backup list" where
  "entry_of app_dir f =
     (case parse_backup_date f of Inr (Some d) \<Rightarrow> [(f, d, path_join app_dir f)] | _ \<Rightarrow> [])"

text \<open>The months of the backups after the four most recent ones.\<close>

definition rest_months :: "backup list \<Rightarrow> monthly" where
  "rest_months backups = group_by_month (drop 4 backups) []"

text \<open>The entries of a catalogue that a decision keeps, and those it deletes.\<close>

definition kept_entries :: "backup list \<Rightarrow> string set \<times> (string \<times> string) list \<Rightarrow> backup set" where
  "kept_entries backups d = {b \<in> set backups. bpath b \<in> fst d}"

definition deleted_entries :: "backup list \<Rightarrow> string set \<times> (string \<times> string) list \<Rightarrow> backup set" where
  "deleted_entries backups d = {b \<in> set backups. (fname b, bpath b) \<in> set (snd d)}"

text \<open>
  The catalogue of the scenario of 2024-04-01: seven backups of the resource \<open>x\<close>.
\<close>

definition scenario_catalog :: "backup list" where
  "scenario_catalog =
     [(''x.db.2024-03-29'', (2024, 3, 29), ''backups/x/x.db.2024-03-29''),
      (''x.db.2024-03-22'', (2024, 3, 22), ''backups/x/x.db.2024-03-22''),
      (''x.db.2024-03-15'', (2024, 3, 15), ''backups/x/x.db.2024-03-15''),
      (''x.db.2024-03-01'', (2024, 3, 1), ''backups/x/x.db.2024-03-01''),
      (''x.db.2024-02-10'', (2024, 2, 10), ''backups/x/x.db.2024-02-10''),
      (''x.db.2024-01-20'', (2024, 1, 20), ''backups/x/x.db.2024-01-20''),
      (''x.db.2024-01-05'', (2024, 1, 5), ''backups/x/x.db.2024-01-05'')]"

text \<open>
  A catalogue of seventeen backups for the clock reading 2024-04-15: after the four most
  recent ones, thirteen months from 2024-04 back to 2023-04 have one backup each, all of
  them within 365 days.
\<close>

definition thirteen_months_catalog :: "backup list" where
  "thirteen_months_catalog =
     [(''x.db.2024-04-15'', (2024, 4, 15), ''backups/x/x.db.2024-04-15''),
      (''x.db.2024-04-14'', (2024, 4, 14), ''backups/x/x.db.2024-04-14''),
      (''x.db.2024-04-13'', (2024, 4, 13), ''backups/x/x.db.2024-04-13''),
      (''x.db.2024-04-12'', (2024, 4, 12), ''backups/x/x.db.2024-04-12''),
      (''x.db.2024-04-11'', (2024, 4, 11), ''backups/x/x.db.2024-04-11''),
      (''x.db.2024-03-10'', (2024, 3, 10), ''backups/x/x.db.2024-03-10''),
      (''x.db.2024-02-10'', (2024, 2, 10), ''backups/x/x.db.2024-02-10''),
      (''x.db.2024-01-10'', (2024, 1, 10), ''backups/x/x.db.2024-01-10''),
      (''x.db.2023-12-10'', (2023, 12, 10), ''backups/x/x.db.2023-12-10''),
      (''x.db.2023-11-10'', (2023, 11, 10), ''backups/x/x.db.2023-11-10''),
      (''x.db.2023-10-10'', (2023, 10, 10), ''backups/x/x.db.2023-10-10''),
      (''x.db.2023-09-10'', (2023, 9, 10), ''backups/x/x.db.2023-09-10''),
      (''x.db.2023-08-10'', (2023, 8, 10), ''backups/x/x.db.2023-08-10''),
      (''x.db.2023-07-10'', (2023, 7, 10), ''backups/x/x.db.2023-07-10''),
      (''x.db.2023-06-10'', (2023, 6, 10), ''backups/x/x.db.2023-06-10''),
      (''x.db.2023-05-10'', (2023, 5, 10), ''backups/x/x.db.2023-05-10''),
      (''x.db.2023-04-20'', (2023, 4, 20), ''backups/x/x.db.2023-04-20'')]"

text \<open>
  The same catalogue with its oldest backup dated 2023-04-10, before the cut-off
  2023-04-16: twelve months within the cut-off, then a month that fails it.
\<close>

definition twelve_months_catalog :: "backup list" where
  "twelve_months_catalog =
     take 16 thirteen_months_catalog
     @ [(''x.db.2023-04-10'', (2023, 4, 10), ''backups/x/x.db.2023-04-10'')]"

section \<open>Properties\<close>

subsection \<open>Evaluation\<close>

declare monthly_loop.simps [simp del]

lemmas date_defs = year_def month_def day_def is_leap_def DAYS_IN_MONTH_def DAYS_BEFORE_MONTH_def
  days_before_year_def days_in_month_def days_before_month_def toordinal_def date_minus_days_def

lemmas parse_defs = is_digit_def digit_value_def number_of_def date_text_def search_date_def
  strptime_date_def parse_backup_date_def

lemmas catalogue_defs = fname_def bdate_def bpath_def path_join_def sort_newest_first_def
  get_existing_backups_def

lemmas rotate_defs = monthly_get_def sorted_keys_desc_def keep_tiers_def rotate_decision_def
  rotate_backups_def monthly_loop.simps

lemma scenario_listing:
  "get_existing_backups ''backups/x''
     (Some [''x.db.2024-01-20'', ''x.db.2024-03-29'', ''x.db.2024-03-22'', ''notes.txt'',
            ''x.db.2024-03-15'', ''x.db.2024-03-01'', ''x.db.2024-02-10'', ''x.db.2024-01-05''])
   = Inr scenario_catalog"
  by (simp add: parse_defs date_defs catalogue_defs scenario_catalog_def)

lemma scenario_decision:
  "rotate_decision scenario_catalog (2024, 4, 1) =
     Inr ({''backups/x/x.db.2024-03-29'', ''backups/x/x.db.2024-03-22'',
           ''backups/x/x.db.2024-03-15'', ''backups/x/x.db.2024-03-01'',
           ''backups/x/x.db.2024-02-10'', ''backups/x/x.db.2024-01-05''},
          [(''x.db.2024-01-20'', ''backups/x/x.db.2024-01-20'')])"
  by (simp add: date_defs catalogue_defs rotate_defs scenario_catalog_def insert_commute)

lemma thirteen_keys:
  "sorted_keys_desc (rest_months thirteen_months_catalog) =
     [(2024, 4), (2024, 3), (2024, 2), (2024, 1), (2023, 12), (2023, 11), (2023, 10),
      (2023, 9), (2023, 8), (2023, 7), (2023, 6), (2023, 5), (2023, 4)]"
  by (simp add: thirteen_months_catalog_def rest_months_def date_defs catalogue_defs rotate_defs)

lemma thirteen_last_within:
  "within_cutoff (rest_months thirteen_months_catalog) (toordinal (2024, 4, 15) - 365) (2023, 4)"
  by (simp add: thirteen_months_catalog_def rest_months_def within_cutoff_def oldest_in_def
      date_defs catalogue_defs rotate_defs)

lemma thirteen_tiers:
  "keep_tiers thirteen_months_catalog (2024, 4, 15) =
     Inr ({''backups/x/x.db.2024-04-15'', ''backups/x/x.db.2024-04-14'',
           ''backups/x/x.db.2024-04-13'', ''backups/x/x.db.2024-04-12'',
           ''backups/x/x.db.2024-04-11'', ''backups/x/x.db.2024-03-10'',
           ''backups/x/x.db.2024-02-10'', ''backups/x/x.db.2024-01-10'',
           ''backups/x/x.db.2023-12-10'', ''backups/x/x.db.2023-11-10'',
           ''backups/x/x.db.2023-10-10'', ''backups/x/x.db.2023-09-10'',
           ''backups/x/x.db.2023-08-10'', ''backups/x/x.db.2023-07-10'',
           ''backups/x/x.db.2023-06-10'', ''backups/x/x.db.2023-05-10''},
          12,
          [(2024, 4), (2024, 3), (2024, 2), (2024, 1), (2023, 12), (2023, 11), (2023, 10),
           (2023, 9), (2023, 8), (2023, 7), (2023, 6), (2023, 5)])"
  by (simp add: thirteen_months_catalog_def date_defs catalogue_defs rotate_defs insert_commute)

lemma twelve_keys:
  "sorted_keys_desc (rest_months twelve_months_catalog) =
     [(2024, 4), (2024, 3), (2024, 2), (2024, 1), (2023, 12), (2023, 11), (2023, 10),
      (2023, 9), (2023, 8), (2023, 7), (2023, 6), (2023, 5), (2023, 4)]"
  by (simp add: twelve_months_catalog_def thirteen_months_catalog_def rest_months_def
      date_defs catalogue_defs rotate_defs)

lemma twelve_last_fails:
  "\<not> within_cutoff (rest_months twelve_months_catalog) (toordinal (2024, 4, 15) - 365) (2023, 4)"
  by (simp add: twelve_months_catalog_def thirteen_months_catalog_def rest_months_def
      within_cutoff_def oldest_in_def date_defs catalogue_defs rotate_defs)

lemma twelve_tiers:
  "keep_tiers twelve_months_catalog (2024, 4, 15) =
     Inr ({''backups/x/x.db.2024-04-15'', ''backups/x/x.db.2024-04-14'',
           ''backups/x/x.db.2024-04-13'', ''backups/x/x.db.2024-04-12'',
           ''backups/x/x.db.2024-04-11'', ''backups/x/x.db.2024-03-10'',
           ''backups/x/x.db.2024-02-10'', ''backups/x/x.db.2024-01-10'',
           ''backups/x/x.db.2023-12-10'', ''backups/x/x.db.2023-11-10'',
           ''backups/x/x.db.2023-10-10'', ''backups/x/x.db.2023-09-10'',
           ''backups/x/x.db.2023-08-10'', ''backups/x/x.db.2023-07-10'',
           ''backups/x/x.db.2023-06-10'', ''backups/x/x.db.2023-05-10''},
          12,
          [(2024, 4), (2024, 3), (2024, 2), (2024, 1), (2023, 12), (2023, 11), (2023, 10),
           (2023, 9), (2023, 8), (2023, 7), (2023, 6), (2023, 5)])"
  by (simp add: twelve_months_catalog_def thirteen_months_catalog_def date_defs catalogue_defs
      rotate_defs insert_commute)

subsection \<open>Day numbers and the order of dates\<close>

lemma div_succ:
  fixes z k :: int
  assumes "0 < k"
  shows "(z + 1) div k = z div k + (if (z + 1) mod k = 0 then 1 else 0)"
proof -
  let ?q = "(z + 1) div k" and ?r = "(z + 1) mod k"
  have e: "z + 1 = k * ?q + ?r" by simp
  have r: "0 \<le> ?r" "?r < k" using assms by simp_all
  show ?thesis
  proof (cases "?r = 0")
    case True
    with e have "z + 1 = k * ?q" by simp
    then have "z = k * (?q - 1) + (k - 1)" by (simp add: algebra_simps)
    then have "z div k = ?q - 1" using assms int_div_pos_eq[of z k "?q - 1" "k - 1"] by simp
    with True show ?thesis by simp
  next
    case False
    from e have "z = k * ?q + (?r - 1)" by linarith
    then have "z div k = ?q" using r False int_div_pos_eq[of z k ?q "?r - 1"] by simp
    with False show ?thesis by simp
  qed
qed

lemma days_before_year_Suc: "days_before_year (y + 1) = days_before_year y + days_in_year y"
proof -
  define a where "a = (if y mod 4 = 0 then 1 else 0::int)"
  define b where "b = (if y mod 100 = 0 then 1 else 0::int)"
  define c where "c = (if y mod 400 = 0 then 1 else 0::int)"
  have d4: "y div 4 = (y - 1) div 4 + a"
    using div_succ[of 4 "y - 1"] by (simp add: a_def)
  have d100: "y div 100 = (y - 1) div 100 + b"
    using div_succ[of 100 "y - 1"] by (simp add: b_def)
  have d400: "y div 400 = (y - 1) div 400 + c"
    using div_succ[of 400 "y - 1"] by (simp add: c_def)
  have "y mod 100 mod 4 = y mod 4" by (rule mod_mod_cancel) simp
  then have m1: "y mod 100 = 0 \<Longrightarrow> y mod 4 = 0" by simp
  have "y mod 400 mod 100 = y mod 100" by (rule mod_mod_cancel) simp
  then have m2: "y mod 400 = 0 \<Longrightarrow> y mod 100 = 0" by simp
  have diy: "days_in_year y = 365 + a - b + c"
  proof (cases "y mod 4 = 0")
    case False
    with m1 have n1: "y mod 100 \<noteq> 0" by auto
    with m2 have n2: "y mod 400 \<noteq> 0" by auto
    note n1 n2
    with False show ?thesis by (simp add: days_in_year_def is_leap_def a_def b_def c_def)
  next
    case True
    show ?thesis
    proof (cases "y mod 100 = 0")
      case False
      with m2 have "y mod 400 \<noteq> 0" by auto
      with True False show ?thesis by (simp add: days_in_year_def is_leap_def a_def b_def c_def)
    next
      case h: True
      with True show ?thesis by (simp add: days_in_year_def is_leap_def a_def b_def c_def)
    qed
  qed
  have 1: "days_before_year (y + 1) = y * 365 + y div 4 - y div 100 + y div 400"
    by (simp add: days_before_year_def)
  have 2: "days_before_year y = (y - 1) * 365 + (y - 1) div 4 - (y - 1) div 100 + (y - 1) div 400"
    by (simp add: days_before_year_def Let_def)
  have 3: "(y - 1) * 365 = y * 365 - 365" by (simp add: algebra_simps)
  show ?thesis unfolding 1 2 3 diy using d4 d100 d400 by linarith
qed

lemma days_in_year_pos: "365 \<le> days_in_year y"
  by (simp add: days_in_year_def)

lemma days_before_year_mono_nat: "days_before_year y \<le> days_before_year (y + int n)"
proof (induction n)
  case 0
  show ?case by simp
next
  case (Suc n)
  have "y + int (Suc n) = (y + int n) + 1" by simp
  then have "days_before_year (y + int (Suc n)) = days_before_year ((y + int n) + 1)"
    by (rule arg_cong)
  also have "\<dots> = days_before_year (y + int n) + days_in_year (y + int n)"
    by (rule days_before_year_Suc)
  finally show ?case using Suc days_in_year_pos[of "y + int n"] by linarith
qed

lemma days_before_year_mono: "y \<le> z \<Longrightarrow> days_before_year y \<le> days_before_year z"
  using days_before_year_mono_nat[of y "nat (z - y)"] by simp

lemma month_cases:
  assumes "1 \<le> m" "m \<le> (12::int)"
  shows "m = 1 \<or> m = 2 \<or> m = 3 \<or> m = 4 \<or> m = 5 \<or> m = 6 \<or> m = 7 \<or> m = 8 \<or> m = 9
       \<or> m = 10 \<or> m = 11 \<or> m = 12"
  using assms by arith

lemma days_before_month_next:
  assumes "1 \<le> m" "m < 12"
  shows "days_before_month y (m + 1) = days_before_month y m + days_in_month y m"
proof -
  from assms have "m = 1 \<or> m = 2 \<or> m = 3 \<or> m = 4 \<or> m = 5 \<or> m = 6 \<or> m = 7 \<or> m = 8
      \<or> m = 9 \<or> m = 10 \<or> m = 11" by arith
  then show ?thesis
    by (elim disjE)
      (simp_all add: days_before_month_def days_in_month_def DAYS_BEFORE_MONTH_def
        DAYS_IN_MONTH_def)
qed

lemma days_in_month_nonneg:
  assumes "1 \<le> m" "m \<le> 12"
  shows "0 \<le> days_in_month y m"
  using month_cases[OF assms]
  by (elim disjE) (simp_all add: days_in_month_def DAYS_IN_MONTH_def)

lemma days_before_month_mono_nat:
  "1 \<le> m \<Longrightarrow> m + int n \<le> 12 \<Longrightarrow> days_before_month y m \<le> days_before_month y (m + int n)"
proof (induction n)
  case 0
  show ?case by simp
next
  case (Suc n)
  then have b: "1 \<le> m + int n" "m + int n < 12" by simp_all
  have "m + int (Suc n) = (m + int n) + 1" by simp
  then have "days_before_month y (m + int (Suc n)) = days_before_month y ((m + int n) + 1)"
    by (rule arg_cong)
  also have "\<dots> = days_before_month y (m + int n) + days_in_month y (m + int n)"
    by (rule days_before_month_next[OF b])
  finally show ?case using Suc days_in_month_nonneg[of "m + int n" y] b by simp
qed

lemma days_before_month_mono:
  assumes "1 \<le> m" "m \<le> m'" "m' \<le> 12"
  shows "days_before_month y m \<le> days_before_month y m'"
  using days_before_month_mono_nat[of m "nat (m' - m)" y] assms by simp

lemma days_before_month_end:
  assumes "1 \<le> m" "m \<le> 12"
  shows "days_before_month y m + days_in_month y m \<le> days_in_year y"
proof (cases "m = 12")
  case True
  then show ?thesis
    by (simp add: days_before_month_def days_in_month_def DAYS_BEFORE_MONTH_def
        DAYS_IN_MONTH_def days_in_year_def)
next
  case False
  with assms have b: "1 \<le> m" "m < 12" by simp_all
  have "days_before_month y m + days_in_month y m = days_before_month y (m + 1)"
    using days_before_month_next[OF b] by simp
  also have "\<dots> \<le> days_before_month y 12"
    using b by (intro days_before_month_mono) simp_all
  also have "\<dots> \<le> days_in_year y"
    by (simp add: days_before_month_def DAYS_BEFORE_MONTH_def days_in_year_def)
  finally show ?thesis .
qed

lemma days_before_month_nonneg:
  assumes "1 \<le> m" "m \<le> 12"
  shows "0 \<le> days_before_month y m"
proof -
  have "days_before_month y 1 \<le> days_before_month y m"
    using assms by (intro days_before_month_mono) simp_all
  then show ?thesis by (simp add: days_before_month_def DAYS_BEFORE_MONTH_def)
qed

lemma toordinal_strict_mono:
  assumes v1: "valid_date d1" and v2: "valid_date d2" and lt: "d1 < d2"
  shows "toordinal d1 < toordinal d2"
proof -
  obtain y1 m1 a1 where d1: "d1 = (y1, m1, a1)" by (cases d1) auto
  obtain y2 m2 a2 where d2: "d2 = (y2, m2, a2)" by (cases d2) auto
  from v1 d1 have b1: "1 \<le> m1" "m1 \<le> 12" "1 \<le> a1" "a1 \<le> days_in_month y1 m1"
    by (simp_all add: valid_date_def year_def month_def day_def)
  from v2 d2 have b2: "1 \<le> m2" "m2 \<le> 12" "1 \<le> a2" "a2 \<le> days_in_month y2 m2"
    by (simp_all add: valid_date_def year_def month_def day_def)
  have t1: "toordinal d1 = days_before_year y1 + days_before_month y1 m1 + a1"
    by (simp add: d1 toordinal_def year_def month_def day_def)
  have t2: "toordinal d2 = days_before_year y2 + days_before_month y2 m2 + a2"
    by (simp add: d2 toordinal_def year_def month_def day_def)
  from lt d1 d2 have "y1 < y2 \<or> y1 \<le> y2 \<and> (m1 < m2 \<or> m1 \<le> m2 \<and> a1 < a2)"
    by simp
  then have "y1 < y2 \<or> y1 = y2 \<and> m1 < m2 \<or> y1 = y2 \<and> m1 = m2 \<and> a1 < a2"
    by linarith
  then consider "y1 < y2" | "y1 = y2" "m1 < m2" | "y1 = y2" "m1 = m2" "a1 < a2"
    by blast
  then show ?thesis
  proof cases
    case 1
    have "toordinal d1 \<le> days_before_year y1 + days_in_year y1"
      using t1 b1(4) days_before_month_end[OF b1(1,2), of y1] by linarith
    also have "\<dots> = days_before_year (y1 + 1)" by (simp add: days_before_year_Suc)
    also have "\<dots> \<le> days_before_year y2" using 1 by (intro days_before_year_mono) simp
    also have "\<dots> < toordinal d2"
      using t2 b2(3) days_before_month_nonneg[OF b2(1,2), of y2] by linarith
    finally show ?thesis .
  next
    case 2
    from 2(2) b1(1) b2(2) have n: "1 \<le> m1" "m1 < 12" by simp_all
    have "toordinal d1 \<le> days_before_year y1 + days_before_month y1 (m1 + 1)"
      using t1 b1(4) days_before_month_next[OF n, of y1] by linarith
    also have "\<dots> \<le> days_before_year y1 + days_before_month y1 m2"
      using days_before_month_mono[of "m1 + 1" m2 y1] 2(2) b1(1) b2(2) by simp
    also have "\<dots> < toordinal d2" using t2 b2(3) 2(1) by simp
    finally show ?thesis .
  next
    case 3
    with t1 t2 show ?thesis by simp
  qed
qed

lemma toordinal_order:
  assumes "valid_date d1" "valid_date d2"
  shows "toordinal d1 \<le> toordinal d2 \<longleftrightarrow> d1 \<le> d2"
proof
  assume "d1 \<le> d2"
  show "toordinal d1 \<le> toordinal d2"
  proof (cases "d1 = d2")
    case True
    then show ?thesis by simp
  next
    case False
    with \<open>d1 \<le> d2\<close> have "d1 < d2" by simp
    from toordinal_strict_mono[OF assms this] show ?thesis by simp
  qed
next
  assume le: "toordinal d1 \<le> toordinal d2"
  show "d1 \<le> d2"
  proof (rule ccontr)
    assume "\<not> d1 \<le> d2"
    then have "d2 < d1" by simp
    from toordinal_strict_mono[OF assms(2,1) this] le show False by simp
  qed
qed

subsection \<open>The months of the remainder\<close>


lemma map_of_monthly_append:
  "map_of (monthly_append k b m) k' =
     (if k' = k then Some (monthly_get m k @ [b]) else map_of m k')"
  by (induction m) (auto simp: monthly_get_def)

lemma monthly_get_append:
  "monthly_get (monthly_append k b m) k' =
     (if k' = k then monthly_get m k @ [b] else monthly_get m k')"
  by (simp add: monthly_get_def map_of_monthly_append)

lemma keys_monthly_append:
  "fst ` set (monthly_append k b m) = insert k (fst ` set m)"
proof (induction m)
  case Nil
  show ?case by simp
next
  case (Cons a m)
  then show ?case by (cases a) (simp add: insert_commute)
qed

lemma distinct_monthly_append:
  "distinct (map fst m) \<Longrightarrow> distinct (map fst (monthly_append k b m))"
proof (induction m)
  case Nil
  show ?case by simp
next
  case (Cons a m)
  then show ?case by (cases a) (simp add: keys_monthly_append)
qed

lemma monthly_get_group:
  "monthly_get (group_by_month bs m) k = monthly_get m k @ filter (\<lambda>b. month_of b = k) bs"
  by (induction bs arbitrary: m) (simp_all add: monthly_get_append month_of_def)

lemma keys_group:
  "fst ` set (group_by_month bs m) = fst ` set m \<union> month_of ` set bs"
  by (induction bs arbitrary: m) (simp_all add: keys_monthly_append month_of_def)

lemma distinct_group:
  "distinct (map fst m) \<Longrightarrow> distinct (map fst (group_by_month bs m))"
  by (induction bs arbitrary: m) (simp_all add: distinct_monthly_append)

lemma monthly_get_empty [simp]: "monthly_get [] k = []"
  by (simp add: monthly_get_def)

lemma set_sorted_keys_desc [simp]: "set (sorted_keys_desc m) = fst ` set m"
  by (simp add: sorted_keys_desc_def)

lemma distinct_sorted_keys_desc: "distinct (sorted_keys_desc m) = distinct (map fst m)"
  by (simp add: sorted_keys_desc_def)

lemma sorted_sorted_keys_desc: "sorted (rev (sorted_keys_desc m))"
  by (simp add: sorted_keys_desc_def)

subsection \<open>The loop over the months\<close>


lemma sort_key_eq_Nil [simp]: "sort_key f xs = [] \<longleftrightarrow> xs = []"
  by (metis length_sort length_0_conv)

lemma monthly_loop_step:
  assumes "monthly_get m k \<noteq> []" "n < 12"
  shows "monthly_loop m c (k # ks) (K, n, v) =
           (if within_cutoff m c k
            then monthly_loop m c ks (insert (bpath (oldest_in m k)) K, n + 1, v @ [k])
            else monthly_loop m c ks (K, n, v @ [k]))"
proof -
  from assms(1) obtain x xs where "sort_key bdate (monthly_get m k) = x # xs"
    by (cases "sort_key bdate (monthly_get m k)") auto
  with assms(2) show ?thesis
    by (simp add: monthly_loop.simps within_cutoff_def oldest_in_def)
qed

lemma monthly_loop_break:
  "12 \<le> n \<Longrightarrow> monthly_loop m c ks (K, n, v) = Inr (K, n, v)"
  by (cases ks) (simp_all add: monthly_loop.simps)

lemma monthly_loop_char:
  assumes "\<forall>k\<in>set ks. monthly_get m k \<noteq> []"
  shows "\<exists>vs rest. ks = vs @ rest
           \<and> monthly_loop m c ks (K, n, v) =
               Inr (K \<union> bpath ` oldest_in m ` {k \<in> set vs. within_cutoff m c k},
                    n + length (filter (within_cutoff m c) vs), v @ vs)
           \<and> (n + length (filter (within_cutoff m c) vs) < 12 \<longrightarrow> rest = [])
           \<and> (n < 12 \<longrightarrow> n + length (filter (within_cutoff m c) vs) \<le> 12)
           \<and> (n < 12 \<longrightarrow> rest \<noteq> [] \<longrightarrow> vs \<noteq> [] \<and> within_cutoff m c (last vs))"
  using assms
proof (induction ks arbitrary: K n v)
  case Nil
  show ?case by (simp add: monthly_loop.simps)
next
  case (Cons k ks)
  show ?case
  proof (cases "12 \<le> n")
    case True
    then have "monthly_loop m c (k # ks) (K, n, v) = Inr (K, n, v)"
      by (rule monthly_loop_break)
    with True show ?thesis
      by (intro exI[of _ "[]"] exI[of _ "k # ks"]) simp
  next
    case False
    then have n: "n < 12" by simp
    from Cons.prems have k: "monthly_get m k \<noteq> []" and ks: "\<forall>k\<in>set ks. monthly_get m k \<noteq> []"
      by simp_all
    show ?thesis
    proof (cases "within_cutoff m c k")
      case True
      from Cons.IH[OF ks, of "insert (bpath (oldest_in m k)) K" "n + 1" "v @ [k]"]
      obtain vs rest where r: "ks = vs @ rest"
        "monthly_loop m c ks (insert (bpath (oldest_in m k)) K, n + 1, v @ [k]) =
           Inr (insert (bpath (oldest_in m k)) K \<union> bpath ` oldest_in m ` {k \<in> set vs. within_cutoff m c k},
                n + 1 + length (filter (within_cutoff m c) vs), (v @ [k]) @ vs)"
        "n + 1 + length (filter (within_cutoff m c) vs) < 12 \<longrightarrow> rest = []"
        "n + 1 < 12 \<longrightarrow> n + 1 + length (filter (within_cutoff m c) vs) \<le> 12"
        "n + 1 < 12 \<longrightarrow> rest \<noteq> [] \<longrightarrow> vs \<noteq> [] \<and> within_cutoff m c (last vs)"
        by blast
      have set_eq: "insert (bpath (oldest_in m k)) K \<union> bpath ` oldest_in m ` {k \<in> set vs. within_cutoff m c k}
          = K \<union> bpath ` oldest_in m ` {k' \<in> set (k # vs). within_cutoff m c k'}"
        using True by auto
      have len12: "n + 1 = 12 \<Longrightarrow> vs = []"
      proof -
        assume "n + 1 = 12"
        then have "monthly_loop m c ks (insert (bpath (oldest_in m k)) K, n + 1, v @ [k])
            = Inr (insert (bpath (oldest_in m k)) K, n + 1, v @ [k])"
          by (simp add: monthly_loop_break)
        with r(2) show "vs = []" by simp
      qed
      have run: "monthly_loop m c (k # ks) (K, n, v) =
          Inr (K \<union> bpath ` oldest_in m ` {k' \<in> set (k # vs). within_cutoff m c k'},
               n + length (filter (within_cutoff m c) (k # vs)), v @ k # vs)"
        unfolding monthly_loop_step[OF k n] set_eq[symmetric] using True r(2) by simp
      have c1: "k # ks = (k # vs) @ rest" using r(1) by simp
      have c3: "n + length (filter (within_cutoff m c) (k # vs)) < 12 \<longrightarrow> rest = []"
        using r(3) True by simp
      have c4: "n < 12 \<longrightarrow> n + length (filter (within_cutoff m c) (k # vs)) \<le> 12"
        using r(4) True len12 n by (cases "n + 1 = 12") auto
      have c5: "n < 12 \<longrightarrow> rest \<noteq> [] \<longrightarrow> k # vs \<noteq> [] \<and> within_cutoff m c (last (k # vs))"
        using r(5) True len12 n by (cases "n + 1 = 12") auto
      from c1 run c3 c4 c5 show ?thesis by blast
    next
      case False
      from Cons.IH[OF ks, of K n "v @ [k]"]
      obtain vs rest where r: "ks = vs @ rest"
        "monthly_loop m c ks (K, n, v @ [k]) =
           Inr (K \<union> bpath ` oldest_in m ` {k \<in> set vs. within_cutoff m c k},
                n + length (filter (within_cutoff m c) vs), (v @ [k]) @ vs)"
        "n + length (filter (within_cutoff m c) vs) < 12 \<longrightarrow> rest = []"
        "n < 12 \<longrightarrow> n + length (filter (within_cutoff m c) vs) \<le> 12"
        "n < 12 \<longrightarrow> rest \<noteq> [] \<longrightarrow> vs \<noteq> [] \<and> within_cutoff m c (last vs)"
        by blast
      have set_eq: "K \<union> bpath ` oldest_in m ` {k \<in> set vs. within_cutoff m c k}
          = K \<union> bpath ` oldest_in m ` {k' \<in> set (k # vs). within_cutoff m c k'}"
        using False by auto
      have run: "monthly_loop m c (k # ks) (K, n, v) =
          Inr (K \<union> bpath ` oldest_in m ` {k' \<in> set (k # vs). within_cutoff m c k'},
               n + length (filter (within_cutoff m c) (k # vs)), v @ k # vs)"
        unfolding monthly_loop_step[OF k n] set_eq[symmetric] using False r(2) by simp
      have c1: "k # ks = (k # vs) @ rest" using r(1) by simp
      have c3: "n + length (filter (within_cutoff m c) (k # vs)) < 12 \<longrightarrow> rest = []"
        using r(3) False by simp
      have c4: "n < 12 \<longrightarrow> n + length (filter (within_cutoff m c) (k # vs)) \<le> 12"
        using r(4) False by simp
      have c5: "n < 12 \<longrightarrow> rest \<noteq> [] \<longrightarrow> k # vs \<noteq> [] \<and> within_cutoff m c (last (k # vs))"
      proof (intro impI)
        assume "n < 12" "rest \<noteq> []"
        with r(5) have "vs \<noteq> [] \<and> within_cutoff m c (last vs)" by simp
        then show "k # vs \<noteq> [] \<and> within_cutoff m c (last (k # vs))" by simp
      qed
      from c1 run c3 c4 c5 show ?thesis by blast
    qed
  qed
qed


lemma hd_sort_key_in: "xs \<noteq> [] \<Longrightarrow> hd (sort_key f xs) \<in> set xs"
  by (metis hd_in_set set_sort sort_key_eq_Nil)

lemma oldest_in_group: "monthly_get m k \<noteq> [] \<Longrightarrow> oldest_in m k \<in> set (monthly_get m k)"
  by (simp add: oldest_in_def hd_sort_key_in)

lemma monthly_get_rest: "monthly_get (group_by_month bs []) k = filter (\<lambda>b. month_of b = k) bs"
  by (simp add: monthly_get_group)

lemma keys_rest: "fst ` set (group_by_month bs []) = month_of ` set bs"
  by (simp add: keys_group)

lemma distinct_keys_rest: "distinct (map fst (group_by_month bs []))"
  by (simp add: distinct_group)

lemma groups_nonempty:
  "k \<in> set (sorted_keys_desc (group_by_month bs [])) \<Longrightarrow> monthly_get (group_by_month bs []) k \<noteq> []"
  by (auto simp: keys_rest monthly_get_rest filter_empty_conv)

lemma oldest_in_rest:
  assumes "k \<in> month_of ` set bs"
  shows "oldest_in (group_by_month bs []) k \<in> set bs" "month_of (oldest_in (group_by_month bs []) k) = k"
proof -
  from assms have "monthly_get (group_by_month bs []) k \<noteq> []"
    by (auto simp: monthly_get_rest filter_empty_conv)
  from oldest_in_group[OF this]
  show "oldest_in (group_by_month bs []) k \<in> set bs" "month_of (oldest_in (group_by_month bs []) k) = k"
    by (simp_all add: monthly_get_rest)
qed

lemma keep_tiers_char:
  assumes "date_minus_days now 365 = Inr c"
  shows "\<exists>vs rest. sorted_keys_desc (group_by_month (drop 4 backups) []) = vs @ rest
     \<and> keep_tiers backups now =
         Inr (bpath ` set (take 4 backups)
                \<union> bpath ` oldest_in (group_by_month (drop 4 backups) []) `
                    {k \<in> set vs. within_cutoff (group_by_month (drop 4 backups) []) c k},
              length (filter (within_cutoff (group_by_month (drop 4 backups) []) c) vs), vs)
     \<and> (length (filter (within_cutoff (group_by_month (drop 4 backups) []) c) vs) < 12 \<longrightarrow> rest = [])
     \<and> length (filter (within_cutoff (group_by_month (drop 4 backups) []) c) vs) \<le> 12
     \<and> (rest \<noteq> [] \<longrightarrow> vs \<noteq> [] \<and> within_cutoff (group_by_month (drop 4 backups) []) c (last vs))"
proof -
  let ?m = "group_by_month (drop 4 backups) []"
  have "\<forall>k\<in>set (sorted_keys_desc ?m). monthly_get ?m k \<noteq> []"
    using groups_nonempty by blast
  from monthly_loop_char[OF this, of c "bpath ` set (take 4 backups)" 0 "[]"]
  have "\<exists>vs rest. sorted_keys_desc ?m = vs @ rest \<and>
    monthly_loop ?m c (sorted_keys_desc ?m) (bpath ` set (take 4 backups), 0, []) =
       Inr (bpath ` set (take 4 backups) \<union> bpath ` oldest_in ?m ` {k \<in> set vs. within_cutoff ?m c k},
            length (filter (within_cutoff ?m c) vs), vs) \<and>
    (length (filter (within_cutoff ?m c) vs) < 12 \<longrightarrow> rest = []) \<and>
    length (filter (within_cutoff ?m c) vs) \<le> 12 \<and>
    (rest \<noteq> [] \<longrightarrow> vs \<noteq> [] \<and> within_cutoff ?m c (last vs))"
    by simp
  then obtain vs rest where r: "sorted_keys_desc ?m = vs @ rest"
    "monthly_loop ?m c (sorted_keys_desc ?m) (bpath ` set (take 4 backups), 0, []) =
       Inr (bpath ` set (take 4 backups) \<union> bpath ` oldest_in ?m ` {k \<in> set vs. within_cutoff ?m c k},
            length (filter (within_cutoff ?m c) vs), vs)"
    "length (filter (within_cutoff ?m c) vs) < 12 \<longrightarrow> rest = []"
    "length (filter (within_cutoff ?m c) vs) \<le> 12"
    "rest \<noteq> [] \<longrightarrow> vs \<noteq> [] \<and> within_cutoff ?m c (last vs)"
    by blast
  have "keep_tiers backups now =
       Inr (bpath ` set (take 4 backups) \<union> bpath ` oldest_in ?m ` {k \<in> set vs. within_cutoff ?m c k},
            length (filter (within_cutoff ?m c) vs), vs)"
    using assms r(2) by (simp add: keep_tiers_def Let_def)
  with r(1,3,4,5) show ?thesis by blast
qed

lemma date_minus_days_ok: "n < toordinal d \<Longrightarrow> date_minus_days d n = Inr (toordinal d - n)"
  by (simp add: date_minus_days_def)

lemma date_minus_days_Inr: "date_minus_days d n = Inr c \<Longrightarrow> c = toordinal d - n"
  by (auto simp: date_minus_days_def Let_def split: if_splits)


lemma keep_tiers_paths:
  assumes "keep_tiers backups now = Inr (K, n, vs)"
  shows "bpath ` set (take 4 backups) \<subseteq> K" "K \<subseteq> bpath ` set backups"
proof -
  from assms obtain c where c: "date_minus_days now 365 = Inr c"
    by (cases "date_minus_days now 365") (simp_all add: keep_tiers_def Let_def)
  let ?m = "group_by_month (drop 4 backups) []"
  from keep_tiers_char[OF c, of backups] assms
  obtain vs' rest where r: "sorted_keys_desc ?m = vs' @ rest"
    "K = bpath ` set (take 4 backups) \<union> bpath ` oldest_in ?m ` {k \<in> set vs'. within_cutoff ?m c k}"
    by auto
  show "bpath ` set (take 4 backups) \<subseteq> K" using r(2) by blast
  have "set vs' \<subseteq> month_of ` set (drop 4 backups)"
    using r(1) set_sorted_keys_desc[of ?m] keys_rest[of "drop 4 backups"] by auto
  then have "oldest_in ?m ` {k \<in> set vs'. within_cutoff ?m c k} \<subseteq> set (drop 4 backups)"
    using oldest_in_rest(1) by blast
  moreover have "set (drop 4 backups) \<subseteq> set backups" by (rule set_drop_subset)
  moreover have "set (take 4 backups) \<subseteq> set backups" by (rule set_take_subset)
  ultimately show "K \<subseteq> bpath ` set backups" using r(2) by blast
qed

lemma rotate_cases:
  assumes "rotate_decision backups now = Inr (to_keep, to_delete)"
  shows "(length backups \<le> 4 \<and> to_keep = bpath ` set backups \<and> to_delete = [])
       \<or> (4 < length backups \<and> (\<exists>n vs. keep_tiers backups now = Inr (to_keep, n, vs))
           \<and> to_delete = map (\<lambda>b. (fname b, bpath b)) (filter (\<lambda>b. bpath b \<notin> to_keep) backups))"
  using assms by (auto simp: rotate_decision_def split: if_splits sum.splits)

subsection \<open>The result of the two tiers\<close>


lemma keep_tiers_Inr:
  assumes "keep_tiers backups now = Inr (K, n, vs)"
  obtains rest where
    "sorted_keys_desc (rest_months backups) = vs @ rest"
    "K = bpath ` set (take 4 backups)
           \<union> bpath ` oldest_in (rest_months backups) `
               {k \<in> set vs. within_cutoff (rest_months backups) (toordinal now - 365) k}"
    "n = length (filter (within_cutoff (rest_months backups) (toordinal now - 365)) vs)"
    "n < 12 \<longrightarrow> rest = []"
    "n \<le> 12"
    "rest \<noteq> [] \<longrightarrow> vs \<noteq> [] \<and> within_cutoff (rest_months backups) (toordinal now - 365) (last vs)"
proof -
  from assms obtain c where c: "date_minus_days now 365 = Inr c"
    by (cases "date_minus_days now 365") (simp_all add: keep_tiers_def Let_def)
  then have c': "c = toordinal now - 365" by (rule date_minus_days_Inr)
  from keep_tiers_char[OF c, of backups] obtain vs' rest where r:
    "sorted_keys_desc (rest_months backups) = vs' @ rest"
    "keep_tiers backups now =
         Inr (bpath ` set (take 4 backups)
                \<union> bpath ` oldest_in (rest_months backups) `
                    {k \<in> set vs'. within_cutoff (rest_months backups) c k},
              length (filter (within_cutoff (rest_months backups) c) vs'), vs')"
    "length (filter (within_cutoff (rest_months backups) c) vs') < 12 \<longrightarrow> rest = []"
    "length (filter (within_cutoff (rest_months backups) c) vs') \<le> 12"
    "rest \<noteq> [] \<longrightarrow> vs' \<noteq> [] \<and> within_cutoff (rest_months backups) c (last vs')"
    unfolding rest_months_def by blast
  from r(2) assms have e: "vs' = vs"
    "K = bpath ` set (take 4 backups)
                \<union> bpath ` oldest_in (rest_months backups) `
                    {k \<in> set vs'. within_cutoff (rest_months backups) c k}"
    "n = length (filter (within_cutoff (rest_months backups) c) vs')"
    by simp_all
  show thesis
    using that[of rest] r(1,3,4,5) e unfolding c' by simp
qed

lemma visited_keys:
  assumes "sorted_keys_desc (rest_months backups) = vs @ rest"
  shows "distinct vs" "set vs \<subseteq> month_of ` set (drop 4 backups)"
proof -
  have "distinct (sorted_keys_desc (rest_months backups))"
    by (simp add: distinct_sorted_keys_desc rest_months_def distinct_keys_rest)
  with assms show "distinct vs" by simp
  have "set (sorted_keys_desc (rest_months backups)) = month_of ` set (drop 4 backups)"
    by (simp add: rest_months_def keys_rest)
  with assms show "set vs \<subseteq> month_of ` set (drop 4 backups)" by auto
qed

lemma oldest_in_rest_months:
  assumes "k \<in> month_of ` set (drop 4 backups)"
  shows "oldest_in (rest_months backups) k \<in> set (drop 4 backups)"
    "month_of (oldest_in (rest_months backups) k) = k"
  using oldest_in_rest[OF assms] by (simp_all add: rest_months_def)

lemma card_month_picks:
  assumes "keep_tiers backups now = Inr (K, n, vs)"
  shows "finite K" "card (K - bpath ` set (take 4 backups)) \<le> 12" "card K \<le> 16"
proof -
  let ?m = "rest_months backups" and ?c = "toordinal now - 365"
  let ?E = "{k \<in> set vs. within_cutoff ?m ?c k}"
  let ?T = "bpath ` set (take 4 backups)"
  from keep_tiers_Inr[OF assms] obtain rest where r:
    "sorted_keys_desc ?m = vs @ rest" "K = ?T \<union> bpath ` oldest_in ?m ` ?E"
    "n = length (filter (within_cutoff ?m ?c) vs)" "n \<le> 12"
    by blast
  have "distinct vs" using visited_keys(1)[OF r(1)] .
  then have "card ?E = n"
    using r(3) distinct_card[of "filter (within_cutoff ?m ?c) vs"] by simp
  then have E: "card ?E \<le> 12" using r(4) by simp
  have P: "card (bpath ` oldest_in ?m ` ?E) \<le> 12"
    by (rule order_trans[OF card_image_le order_trans[OF card_image_le E]]) simp_all
  show "finite K" using r(2) by simp
  have "K - ?T \<subseteq> bpath ` oldest_in ?m ` ?E" using r(2) by auto
  then have "card (K - ?T) \<le> card (bpath ` oldest_in ?m ` ?E)"
    by (intro card_mono) simp_all
  with P show "card (K - ?T) \<le> 12" by simp
  have "card ?T \<le> length (take 4 backups)"
    using card_image_le[of "set (take 4 backups)" bpath] card_length[of "take 4 backups"] by simp
  then have T: "card ?T \<le> 4" by simp
  have "card K \<le> card ?T + card (bpath ` oldest_in ?m ` ?E)"
    unfolding r(2) by (rule card_Un_le)
  with T P show "card K \<le> 16" by simp
qed


lemma take_drop_paths_disjoint:
  assumes "distinct (map bpath backups)"
  shows "bpath ` set (take 4 backups) \<inter> bpath ` set (drop 4 backups) = {}"
proof -
  have "distinct (map bpath (take 4 backups) @ map bpath (drop 4 backups))"
    using assms by (metis append_take_drop_id map_append)
  then show ?thesis by simp
qed

lemma monthly_pick:
  assumes k: "keep_tiers backups now = Inr (K, n, vs)"
    and d: "distinct (map bpath backups)"
    and b: "b \<in> set (drop 4 backups)" "bpath b \<in> K"
  shows "\<exists>k \<in> set vs. within_cutoff (rest_months backups) (toordinal now - 365) k
             \<and> b = oldest_in (rest_months backups) k"
proof -
  let ?m = "rest_months backups" and ?c = "toordinal now - 365"
  from keep_tiers_Inr[OF k] obtain rest where r:
    "sorted_keys_desc ?m = vs @ rest"
    "K = bpath ` set (take 4 backups) \<union> bpath ` oldest_in ?m ` {k \<in> set vs. within_cutoff ?m ?c k}"
    by blast
  from b(1) take_drop_paths_disjoint[OF d] have "bpath b \<notin> bpath ` set (take 4 backups)"
    by blast
  with b(2) r(2) obtain k' where k': "k' \<in> set vs" "within_cutoff ?m ?c k'"
    "bpath b = bpath (oldest_in ?m k')" by auto
  from k'(1) visited_keys(2)[OF r(1)] have "k' \<in> month_of ` set (drop 4 backups)" by blast
  then have o: "oldest_in ?m k' \<in> set (drop 4 backups)" by (rule oldest_in_rest_months(1))
  have "inj_on bpath (set (drop 4 backups))"
    using d by (metis distinct_drop distinct_map drop_map)
  with o b(1) k'(3) have "b = oldest_in ?m k'" by (auto dest: inj_onD)
  with k'(1,2) show ?thesis by blast
qed

text \<open>When the counter ends at 12, the last group evaluated is the twelfth month kept.\<close>

lemma monthly_loop_last_kept:
  assumes "\<forall>k\<in>set ks. monthly_get m k \<noteq> []"
    and "monthly_loop m c ks (K, n, v) = Inr (K', 12, v')"
    and "n < 12"
  shows "\<exists>vs. v' = v @ vs \<and> vs \<noteq> [] \<and> within_cutoff m c (last vs)"
  using assms
proof (induction ks arbitrary: K n v)
  case Nil
  then show ?case by (simp add: monthly_loop.simps)
next
  case (Cons k ks)
  from Cons.prems(1) have k: "monthly_get m k \<noteq> []"
    and ks: "\<forall>k\<in>set ks. monthly_get m k \<noteq> []" by simp_all
  note n = Cons.prems(3)
  show ?case
  proof (cases "within_cutoff m c k")
    case True
    with Cons.prems(2) have run:
      "monthly_loop m c ks (insert (bpath (oldest_in m k)) K, n + 1, v @ [k]) = Inr (K', 12, v')"
      by (simp add: monthly_loop_step[OF k n])
    show ?thesis
    proof (cases "n + 1 = 12")
      case eq: True
      then have "monthly_loop m c ks (insert (bpath (oldest_in m k)) K, n + 1, v @ [k])
          = Inr (insert (bpath (oldest_in m k)) K, n + 1, v @ [k])"
        by (simp add: monthly_loop_break)
      with run have "v' = v @ [k]" by simp
      with True show ?thesis by simp
    next
      case False
      with n have "n + 1 < 12" by simp
      from Cons.IH[OF ks run this] obtain vs where
        vs: "v' = (v @ [k]) @ vs" "vs \<noteq> []" "within_cutoff m c (last vs)" by blast
      then have "v' = v @ (k # vs) \<and> k # vs \<noteq> [] \<and> within_cutoff m c (last (k # vs))"
        by simp
      then show ?thesis by blast
    qed
  next
    case False
    with Cons.prems(2) have run: "monthly_loop m c ks (K, n, v @ [k]) = Inr (K', 12, v')"
      by (simp add: monthly_loop_step[OF k n])
    from Cons.IH[OF ks run n] obtain vs where
      vs: "v' = (v @ [k]) @ vs" "vs \<noteq> []" "within_cutoff m c (last vs)" by blast
    then have "v' = v @ (k # vs) \<and> k # vs \<noteq> [] \<and> within_cutoff m c (last (k # vs))"
      by simp
    then show ?thesis by blast
  qed
qed

lemma keep_tiers_last_kept:
  assumes "keep_tiers backups now = Inr (K, 12, vs)"
  shows "vs \<noteq> [] \<and> within_cutoff (rest_months backups) (toordinal now - 365) (last vs)"
proof -
  from assms obtain c where c: "date_minus_days now 365 = Inr c"
    by (cases "date_minus_days now 365") (simp_all add: keep_tiers_def Let_def)
  then have c': "c = toordinal now - 365" by (rule date_minus_days_Inr)
  let ?m = "rest_months backups"
  have ne: "\<forall>k\<in>set (sorted_keys_desc ?m). monthly_get ?m k \<noteq> []"
    unfolding rest_months_def using groups_nonempty by blast
  from assms c have run: "monthly_loop ?m c (sorted_keys_desc ?m)
      (bpath ` set (take 4 backups), 0, []) = Inr (K, 12, vs)"
    by (simp add: keep_tiers_def Let_def rest_months_def)
  from monthly_loop_last_kept[OF ne run] show ?thesis unfolding c' by simp
qed

subsection \<open>The catalogue as a function of the listing\<close>

lemma parse_error: "parse_backup_date f = Inl e \<Longrightarrow> e = ValueError"
  by (auto simp: parse_backup_date_def strptime_date_def Let_def split: option.splits if_splits sum.splits)

lemma collect_backups_char:
  "collect_backups app_dir fs acc =
     (if \<exists>f \<in> set fs. parse_backup_date f = Inl ValueError then Inl ValueError
      else Inr (acc @ concat (map (entry_of app_dir) fs)))"
proof (induction fs arbitrary: acc)
  case Nil
  show ?case by simp
next
  case (Cons f fs)
  show ?case
  proof (cases "parse_backup_date f")
    case (Inl e)
    with parse_error[OF Inl] show ?thesis by simp
  next
    case (Inr od)
    show ?thesis
    proof (cases od)
      case None
      with Inr have "entry_of app_dir f = []" by (simp add: entry_of_def)
      with Inr None show ?thesis by (simp add: Cons.IH)
    next
      case (Some d)
      with Inr have "entry_of app_dir f = [(f, d, path_join app_dir f)]" by (simp add: entry_of_def)
      with Inr Some show ?thesis by (simp add: Cons.IH)
    qed
  qed
qed

lemma mset_concat_map_sum:
  "mset (concat (map g xs)) = sum_mset (image_mset (\<lambda>x. mset (g x)) (mset xs))"
  by (induction xs) simp_all

lemma mset_concat_map:
  "mset xs = mset ys \<Longrightarrow> mset (concat (map g xs)) = mset (concat (map g ys))"
  by (simp add: mset_concat_map_sum)

lemma sort_newest_first_perm:
  assumes "mset xs = mset ys" "inj_on bdate (set xs)"
  shows "sort_newest_first xs = sort_newest_first ys"
proof -
  have "mset (rev xs) = mset (rev ys)" using assms(1) by simp
  moreover have "inj_on bdate (set (rev xs))" using assms(2) by simp
  ultimately have "sort_key bdate (rev xs) = sort_key bdate (rev ys)"
    by (rule sort_key_eq_sort_key)
  then show ?thesis by (simp add: sort_newest_first_def)
qed

lemma get_existing_backups_perm:
  assumes "mset fs1 = mset fs2"
    and "get_existing_backups app_dir (Some fs1) = Inr backups"
    and "inj_on bdate (set backups)"
  shows "get_existing_backups app_dir (Some fs2) = Inr backups"
proof -
  from assms(1) have s: "set fs1 = set fs2" by (rule mset_eq_setD)
  let ?e1 = "concat (map (entry_of app_dir) fs1)" and ?e2 = "concat (map (entry_of app_dir) fs2)"
  from assms(2) have ok: "\<not> (\<exists>f \<in> set fs1. parse_backup_date f = Inl ValueError)"
    and b: "backups = sort_newest_first ?e1"
    by (auto simp: get_existing_backups_def collect_backups_char split: if_splits)
  have m: "mset ?e1 = mset ?e2" using assms(1) by (rule mset_concat_map)
  have "set backups = set ?e1" unfolding b by (simp add: sort_newest_first_def)
  with assms(3) have "inj_on bdate (set ?e1)" by simp
  with m have "sort_newest_first ?e1 = sort_newest_first ?e2" by (rule sort_newest_first_perm)
  with ok s b show ?thesis
    by (simp add: get_existing_backups_def collect_backups_char)
qed

lemma catalogue_newest_first:
  assumes "get_existing_backups app_dir listing = Inr backups"
  shows "sorted (rev (map bdate backups))"
proof (cases listing)
  case None
  with assms show ?thesis by (simp add: get_existing_backups_def)
next
  case (Some fs)
  with assms have "backups = sort_newest_first (concat (map (entry_of app_dir) fs))"
    by (auto simp: get_existing_backups_def collect_backups_char split: if_splits)
  then show ?thesis by (simp add: sort_newest_first_def rev_map[symmetric])
qed

text \<open>
  The catalogue read from a listing of distinct names without separator, as
  \<^verbatim>\<open>os.listdir\<close> returns them: its paths are distinct, its dates exist and it is
  ordered from the newest date to the oldest.
\<close>

lemma strptime_date_valid: "strptime_date s = Inr d \<Longrightarrow> valid_date d"
  by (auto simp: strptime_date_def valid_date_def Let_def year_def month_def day_def
      split: if_splits)

lemma entry_of_cases:
  "entry_of app_dir f = [] \<or>
   (\<exists>d. parse_backup_date f = Inr (Some d) \<and> entry_of app_dir f = [(f, d, path_join app_dir f)])"
  by (auto simp: entry_of_def split: sum.splits option.splits)

lemma parse_backup_date_valid: "parse_backup_date f = Inr (Some d) \<Longrightarrow> valid_date d"
  by (auto simp: parse_backup_date_def split: option.splits sum.splits dest: strptime_date_valid)

lemma entries_of_listing:
  assumes "b \<in> set (concat (map (entry_of app_dir) fs))"
  shows "fname b \<in> set fs \<and> bpath b = path_join app_dir (fname b) \<and> valid_date (bdate b)
       \<and> parse_backup_date (fname b) = Inr (Some (bdate b))"
proof -
  from assms obtain f where f: "f \<in> set fs" "b \<in> set (entry_of app_dir f)" by auto
  with entry_of_cases[of app_dir f] obtain d where
    d: "parse_backup_date f = Inr (Some d)" "b = (f, d, path_join app_dir f)" by auto
  with f(1) parse_backup_date_valid[OF d(1)] show ?thesis
    by (simp add: fname_def bpath_def bdate_def)
qed

lemma catalogue_entries:
  assumes "get_existing_backups app_dir (Some fs) = Inr backups"
  shows "set backups = set (concat (map (entry_of app_dir) fs))"
    "mset backups = mset (concat (map (entry_of app_dir) fs))"
  using assms
  by (auto simp: get_existing_backups_def collect_backups_char sort_newest_first_def
      split: if_splits)

lemma path_join_inj:
  assumes "CHR ''/'' \<notin> set f" "CHR ''/'' \<notin> set g" "path_join app_dir f = path_join app_dir g"
  shows "f = g"
proof -
  from assms(1) have f: "\<not> (f \<noteq> [] \<and> hd f = CHR ''/'')" by (cases f) auto
  from assms(2) have g: "\<not> (g \<noteq> [] \<and> hd g = CHR ''/'')" by (cases g) auto
  from assms(3) f g show ?thesis by (simp add: path_join_def split: if_splits)
qed

lemma distinct_entries:
  assumes "distinct fs" "\<forall>f\<in>set fs. CHR ''/'' \<notin> set f"
  shows "distinct (map bpath (concat (map (entry_of app_dir) fs)))"
  using assms
proof (induction fs)
  case Nil
  show ?case by simp
next
  case (Cons f fs)
  then have IH: "distinct (map bpath (concat (map (entry_of app_dir) fs)))" by simp
  from entry_of_cases[of app_dir f] show ?case
  proof
    assume "entry_of app_dir f = []"
    with IH show ?thesis by simp
  next
    assume "\<exists>d. parse_backup_date f = Inr (Some d) \<and> entry_of app_dir f = [(f, d, path_join app_dir f)]"
    then obtain d where e: "entry_of app_dir f = [(f, d, path_join app_dir f)]" by blast
    have "path_join app_dir f \<notin> bpath ` set (concat (map (entry_of app_dir) fs))"
    proof
      assume "path_join app_dir f \<in> bpath ` set (concat (map (entry_of app_dir) fs))"
      then obtain b where b: "b \<in> set (concat (map (entry_of app_dir) fs))"
        "path_join app_dir f = bpath b" by (rule imageE)
      from entries_of_listing[OF b(1)] have g: "fname b \<in> set fs"
        "bpath b = path_join app_dir (fname b)" by simp_all
      from Cons.prems(2) g(1) have "CHR ''/'' \<notin> set f" "CHR ''/'' \<notin> set (fname b)" by simp_all
      from path_join_inj[OF this] b(2) g(2) have "f = fname b" by simp
      with g(1) Cons.prems(1) show False by simp
    qed
    moreover have "bpath (f, d, path_join app_dir f) = path_join app_dir f"
      by (simp add: bpath_def)
    ultimately show ?thesis using IH e by simp
  qed
qed

lemma catalogue_well_formed:
  assumes "get_existing_backups app_dir (Some fs) = Inr backups"
    and "distinct fs" "\<forall>f\<in>set fs. CHR ''/'' \<notin> set f"
  shows "distinct (map bpath backups)" "\<forall>b\<in>set backups. valid_date (bdate b)"
    "sorted (rev (map bdate backups))"
proof -
  let ?es = "concat (map (entry_of app_dir) fs)"
  have "mset (map bpath backups) = mset (map bpath ?es)"
    using catalogue_entries(2)[OF assms(1)] by simp
  then have "distinct (map bpath backups) = distinct (map bpath ?es)"
    by (rule mset_eq_imp_distinct_iff)
  with distinct_entries[OF assms(2,3)] show "distinct (map bpath backups)" by simp
  show "\<forall>b\<in>set backups. valid_date (bdate b)"
    using catalogue_entries(1)[OF assms(1)] entries_of_listing by blast
  from assms(1) have "backups = sort_newest_first ?es"
    by (auto simp: get_existing_backups_def collect_backups_char split: if_splits)
  then show "sorted (rev (map bdate backups))"
    by (simp add: sort_newest_first_def rev_map[symmetric])
qed

subsection \<open>Rotating a rotated catalogue\<close>


lemma filter_eq_single: "distinct xs \<Longrightarrow> x \<in> set xs \<Longrightarrow> filter (\<lambda>b. b = x) xs = [x]"
proof (induction xs)
  case Nil
  then show ?case by simp
next
  case (Cons a xs)
  show ?case
  proof (cases "a = x")
    case True
    with Cons.prems have "x \<notin> set xs" by simp
    then have "filter (\<lambda>b. b = x) xs = []" by (auto simp: filter_empty_conv)
    with True show ?thesis by simp
  next
    case False
    with Cons show ?thesis by simp
  qed
qed

lemma monthly_loop_all_kept:
  assumes "\<forall>k\<in>set ks. monthly_get m k \<noteq> [] \<and> within_cutoff m c k" "n + length ks \<le> 12"
  shows "monthly_loop m c ks (K, n, v) =
           Inr (K \<union> bpath ` oldest_in m ` set ks, n + length ks, v @ ks)"
  using assms
proof (induction ks arbitrary: K n v)
  case Nil
  show ?case by (simp add: monthly_loop.simps)
next
  case (Cons k ks)
  from Cons.prems have k: "monthly_get m k \<noteq> []" "within_cutoff m c k" and n: "n < 12"
    and ks: "\<forall>k\<in>set ks. monthly_get m k \<noteq> [] \<and> within_cutoff m c k"
    and len: "(n + 1) + length ks \<le> 12"
    by simp_all
  have "monthly_loop m c (k # ks) (K, n, v) =
      monthly_loop m c ks (insert (bpath (oldest_in m k)) K, n + 1, v @ [k])"
    using monthly_loop_step[OF k(1) n] k(2) by simp
  also have "\<dots> = Inr (insert (bpath (oldest_in m k)) K \<union> bpath ` oldest_in m ` set ks,
      (n + 1) + length ks, (v @ [k]) @ ks)"
    by (rule Cons.IH[OF ks len])
  finally show ?case by simp
qed

lemma filter_kept_split:
  assumes "bpath ` set (take 4 backups) \<subseteq> K"
  shows "filter (\<lambda>b. bpath b \<in> K) backups =
           take 4 backups @ filter (\<lambda>b. bpath b \<in> K) (drop 4 backups)"
proof -
  have "filter (\<lambda>b. bpath b \<in> K) (take 4 backups @ drop 4 backups) =
      filter (\<lambda>b. bpath b \<in> K) (take 4 backups) @ filter (\<lambda>b. bpath b \<in> K) (drop 4 backups)"
    by (rule filter_append)
  moreover have "filter (\<lambda>b. bpath b \<in> K) (take 4 backups) = take 4 backups"
    using assms by (intro filter_True) auto
  ultimately show ?thesis by simp
qed


lemma keep_tiers_rerun:
  assumes k: "keep_tiers backups now = Inr (K, n, vs)"
    and d: "distinct (map bpath backups)"
    and ne: "filter (\<lambda>b. bpath b \<in> K) (drop 4 backups) \<noteq> []"
  shows "\<exists>vs'. keep_tiers (filter (\<lambda>b. bpath b \<in> K) backups) now = Inr (K, n, vs')"
proof -
  let ?m = "rest_months backups" and ?c = "toordinal now - 365"
  let ?P = "\<lambda>b. bpath b \<in> K"
  let ?T = "take 4 backups" and ?R = "drop 4 backups"
  let ?bs' = "filter ?P backups" and ?R' = "filter ?P (drop 4 backups)"
  let ?E = "filter (within_cutoff ?m ?c) vs"
  let ?m' = "group_by_month ?R' []"
  from keep_tiers_Inr[OF k] obtain rest where r:
    "sorted_keys_desc ?m = vs @ rest"
    "K = bpath ` set ?T \<union> bpath ` oldest_in ?m ` {k \<in> set vs. within_cutoff ?m ?c k}"
    "n = length ?E" "n \<le> 12"
    by blast
  from k obtain c where c: "date_minus_days now 365 = Inr c"
    by (cases "date_minus_days now 365") (simp_all add: keep_tiers_def Let_def)
  then have c': "date_minus_days now 365 = Inr ?c" using date_minus_days_Inr by blast
  have top: "bpath ` set ?T \<subseteq> K" using r(2) by blast
  have split: "?bs' = ?T @ ?R'" using filter_kept_split[OF top] .
  have len4: "length ?T = 4"
  proof -
    from ne have "?R \<noteq> []" by auto
    then show ?thesis by simp
  qed
  have take': "take 4 ?bs' = ?T" and drop': "drop 4 ?bs' = ?R'"
    using split len4 by simp_all
  have dR: "distinct ?R" using d by (metis distinct_drop distinct_map drop_map)
  have E_keys: "set ?E \<subseteq> month_of ` set ?R"
    using visited_keys(2)[OF r(1)] by auto
  have pick_in: "oldest_in ?m k \<in> set ?R" "month_of (oldest_in ?m k) = k" "?P (oldest_in ?m k)"
    if "k \<in> set ?E" for k
  proof -
    from that E_keys have "k \<in> month_of ` set ?R" by blast
    from oldest_in_rest_months[OF this]
    show "oldest_in ?m k \<in> set ?R" "month_of (oldest_in ?m k) = k" .
    from that show "?P (oldest_in ?m k)" unfolding r(2) by auto
  qed
  have kept_is_pick: "\<exists>k \<in> set ?E. b = oldest_in ?m k" if "b \<in> set ?R" "?P b" for b
    using monthly_pick[OF k d that] by auto
  have group': "monthly_get ?m' k = [oldest_in ?m k]" if kE: "k \<in> set ?E" for k
  proof -
    have "monthly_get ?m' k = filter (\<lambda>b. month_of b = k) ?R'"
      by (rule monthly_get_rest)
    also have "\<dots> = filter (\<lambda>b. ?P b \<and> month_of b = k) ?R"
      by (simp add: conj_commute)
    also have "\<dots> = filter (\<lambda>b. b = oldest_in ?m k) ?R"
    proof (rule filter_cong[OF refl])
      fix b assume b: "b \<in> set ?R"
      show "(?P b \<and> month_of b = k) = (b = oldest_in ?m k)"
      proof
        assume a: "?P b \<and> month_of b = k"
        with kept_is_pick[OF b] obtain k' where k': "k' \<in> set ?E" "b = oldest_in ?m k'" by blast
        with pick_in(2)[OF k'(1)] a have "k' = k" by simp
        with k'(2) show "b = oldest_in ?m k" by simp
      next
        assume "b = oldest_in ?m k"
        with pick_in(2,3)[OF kE] show "?P b \<and> month_of b = k" by simp
      qed
    qed
    also have "\<dots> = [oldest_in ?m k]"
      using dR pick_in(1)[OF kE] by (rule filter_eq_single)
    finally show ?thesis .
  qed
  have oldest': "oldest_in ?m' k = oldest_in ?m k" if "k \<in> set ?E" for k
    using group'[OF that] by (simp add: oldest_in_def)
  have keys_set: "set (sorted_keys_desc ?m') = set ?E"
  proof -
    have "set (sorted_keys_desc ?m') = month_of ` set ?R'" by (simp add: keys_rest)
    also have "\<dots> = set ?E"
    proof (intro set_eqI iffI)
      fix k assume "k \<in> month_of ` set ?R'"
      then obtain b where b: "b \<in> set ?R" "?P b" "k = month_of b" by auto
      from kept_is_pick[OF b(1,2)] obtain k' where k': "k' \<in> set ?E" "b = oldest_in ?m k'" by blast
      with pick_in(2)[OF k'(1)] b(3) show "k \<in> set ?E" by simp
    next
      fix k assume kE: "k \<in> set ?E"
      from pick_in[OF kE] have "oldest_in ?m k \<in> set ?R'" by simp
      then have "month_of (oldest_in ?m k) \<in> month_of ` set ?R'" by (rule imageI)
      with pick_in(2)[OF kE] show "k \<in> month_of ` set ?R'" by simp
    qed
    finally show ?thesis .
  qed
  have keys_eq: "sorted_keys_desc ?m' = ?E"
  proof -
    have "sorted (rev (vs @ rest))" using sorted_sorted_keys_desc[of ?m] r(1) by simp
    then have "sorted (rev vs)" by (simp add: sorted_append)
    then have "sorted (filter (within_cutoff ?m ?c) (rev vs))" by (rule sorted_wrt_filter)
    then have s1: "sorted (rev ?E)" by (simp add: rev_filter)
    have d1: "distinct (rev ?E)" using visited_keys(1)[OF r(1)] by simp
    have s2: "sorted (rev (sorted_keys_desc ?m'))" by (rule sorted_sorted_keys_desc)
    have d2: "distinct (rev (sorted_keys_desc ?m'))"
      by (simp add: distinct_sorted_keys_desc distinct_keys_rest)
    have "set (rev (sorted_keys_desc ?m')) = set (rev ?E)" using keys_set by simp
    with s2 d2 s1 d1 have "rev (sorted_keys_desc ?m') = rev ?E"
      by (intro sorted_distinct_set_unique)
    then show ?thesis by simp
  qed
  have all: "\<forall>k\<in>set ?E. monthly_get ?m' k \<noteq> [] \<and> within_cutoff ?m' ?c k"
  proof
    fix k assume kE: "k \<in> set ?E"
    then have "within_cutoff ?m ?c k" by simp
    with oldest'[OF kE] group'[OF kE]
    show "monthly_get ?m' k \<noteq> [] \<and> within_cutoff ?m' ?c k"
      by (simp add: within_cutoff_def)
  qed
  have "0 + length ?E \<le> 12" using r(3,4) by simp
  from monthly_loop_all_kept[OF all this, of "bpath ` set ?T" "[]"]
  have "monthly_loop ?m' ?c ?E (bpath ` set ?T, 0, []) =
      Inr (bpath ` set ?T \<union> bpath ` oldest_in ?m' ` set ?E, length ?E, ?E)"
    by simp
  moreover have "oldest_in ?m' ` set ?E = oldest_in ?m ` set ?E"
    using oldest' by (intro image_cong refl)
  ultimately have "monthly_loop ?m' ?c ?E (bpath ` set ?T, 0, []) = Inr (K, n, ?E)"
    using r(2,3) by simp
  then have "keep_tiers ?bs' now = Inr (K, n, ?E)"
    using c' keys_eq by (simp add: keep_tiers_def Let_def take' drop')
  then show ?thesis by blast
qed

section \<open>The claims\<close>

subsection \<open>The gate\<close>

text \<open>
  Claim C3. \<open>should_backup\<close> returns true whenever \<open>force\<close> is set or the catalogue is
  empty. Otherwise the first entry of the catalogue is a most recent one, no other entry
  has a later date, and with \<open>days_old\<close> the day number of \<open>now\<close> minus that of this
  entry, \<open>should_backup\<close> returns false for every \<open>days_old\<close> from 0 to 7, the boundary 7
  included, and true for every \<open>days_old\<close> above 7.
\<close>

theorem should_backup_gate:
  "should_backup app_dir listing True now = Inr True
   \<and> (get_existing_backups app_dir listing = Inr [] \<longrightarrow>
        should_backup app_dir listing force now = Inr True)
   \<and> (get_existing_backups app_dir listing = Inr (newest # rest) \<longrightarrow>
        (\<forall>b \<in> set rest. bdate b \<le> bdate newest)
      \<and> (toordinal now - toordinal (bdate newest) \<in> {0..7} \<longrightarrow>
           should_backup app_dir listing False now = Inr False)
      \<and> (7 < toordinal now - toordinal (bdate newest) \<longrightarrow>
           should_backup app_dir listing force now = Inr True))"
proof (intro conjI impI)
  show "should_backup app_dir listing True now = Inr True"
    by (simp add: should_backup_def)
next
  assume "get_existing_backups app_dir listing = Inr []"
  then show "should_backup app_dir listing force now = Inr True"
    by (simp add: should_backup_def)
next
  assume g: "get_existing_backups app_dir listing = Inr (newest # rest)"
  from catalogue_newest_first[OF g] have "sorted (rev (map bdate rest) @ [bdate newest])"
    by simp
  then show "\<forall>b \<in> set rest. bdate b \<le> bdate newest"
    by (simp add: sorted_append)
next
  assume "get_existing_backups app_dir listing = Inr (newest # rest)"
    and "toordinal now - toordinal (bdate newest) \<in> {0..7}"
  then show "should_backup app_dir listing False now = Inr False"
    by (simp add: should_backup_def)
next
  assume "get_existing_backups app_dir listing = Inr (newest # rest)"
    and "7 < toordinal now - toordinal (bdate newest)"
  then show "should_backup app_dir listing force now = Inr True"
    by (simp add: should_backup_def)
qed

theorem should_backup_gate_witness:
  "get_existing_backups ''backups/x'' (Some [''x.db.2024-03-25'', ''x.db.2024-03-01'']) =
     Inr ((''x.db.2024-03-25'', (2024, 3, 25), ''backups/x/x.db.2024-03-25'')
          # [(''x.db.2024-03-01'', (2024, 3, 1), ''backups/x/x.db.2024-03-01'')])
   \<and> toordinal (2024, 4, 1) - toordinal (2024, 3, 25) = 7
   \<and> should_backup ''backups/x'' (Some [''x.db.2024-03-25'', ''x.db.2024-03-01'']) False (2024, 4, 1) = Inr False
   \<and> toordinal (2024, 4, 2) - toordinal (2024, 3, 25) = 8
   \<and> should_backup ''backups/x'' (Some [''x.db.2024-03-25'', ''x.db.2024-03-01'']) False (2024, 4, 2) = Inr True
   \<and> get_existing_backups ''backups/x'' (Some [''notes.txt'']) = Inr []
   \<and> should_backup ''backups/x'' (Some [''notes.txt'']) False (2024, 4, 2) = Inr True"
proof -
  have g: "get_existing_backups ''backups/x'' (Some [''x.db.2024-03-25'', ''x.db.2024-03-01'']) =
     Inr ((''x.db.2024-03-25'', (2024, 3, 25), ''backups/x/x.db.2024-03-25'')
          # [(''x.db.2024-03-01'', (2024, 3, 1), ''backups/x/x.db.2024-03-01'')])"
    by (simp add: parse_defs date_defs catalogue_defs)
  have e: "get_existing_backups ''backups/x'' (Some [''notes.txt'']) = Inr []"
    by (simp add: parse_defs date_defs catalogue_defs)
  have d7: "toordinal (2024, 4, 1) - toordinal (2024, 3, 25) = 7" by (simp add: date_defs)
  have d8: "toordinal (2024, 4, 2) - toordinal (2024, 3, 25) = 8" by (simp add: date_defs)
  from should_backup_gate[where app_dir="''backups/x''"
      and listing="Some [''x.db.2024-03-25'', ''x.db.2024-03-01'']" and now="(2024, 4, 1)"
      and newest="(''x.db.2024-03-25'', (2024, 3, 25), ''backups/x/x.db.2024-03-25'')"
      and rest="[(''x.db.2024-03-01'', (2024, 3, 1), ''backups/x/x.db.2024-03-01'')]" and force=False] g d7
  have a: "should_backup ''backups/x'' (Some [''x.db.2024-03-25'', ''x.db.2024-03-01'']) False (2024, 4, 1) = Inr False"
    by (simp add: bdate_def)
  from should_backup_gate[where app_dir="''backups/x''"
      and listing="Some [''x.db.2024-03-25'', ''x.db.2024-03-01'']" and now="(2024, 4, 2)"
      and newest="(''x.db.2024-03-25'', (2024, 3, 25), ''backups/x/x.db.2024-03-25'')"
      and rest="[(''x.db.2024-03-01'', (2024, 3, 1), ''backups/x/x.db.2024-03-01'')]" and force=False] g d8
  have b: "should_backup ''backups/x'' (Some [''x.db.2024-03-25'', ''x.db.2024-03-01'']) False (2024, 4, 2) = Inr True"
    by (simp add: bdate_def)
  from should_backup_gate[where app_dir="''backups/x''" and listing="Some [''notes.txt'']"
      and now="(2024, 4, 2)" and force=False] e
  have c: "should_backup ''backups/x'' (Some [''notes.txt'']) False (2024, 4, 2) = Inr True"
    by simp
  from g e d7 d8 a b c show ?thesis by simp
qed

subsection \<open>The four most recent backups\<close>

text \<open>
  Claim C4. On a catalogue of at most four entries the rotation keeps every path and
  deletes nothing. On every catalogue the paths of the entries at positions 0 to 3 are in
  the keep set, and the delete list holds only entries of positions 4 and later, none of
  which has the path of one of the first four.
\<close>

theorem rotate_keeps_four_most_recent:
  "(length backups \<le> 4 \<longrightarrow> rotate_decision backups now = Inr (bpath ` set backups, []))
   \<and> (rotate_decision backups now = Inr (to_keep, to_delete) \<longrightarrow>
        bpath ` set (take 4 backups) \<subseteq> to_keep
      \<and> set to_delete \<subseteq> (\<lambda>b. (fname b, bpath b)) ` set (drop 4 backups)
      \<and> snd ` set to_delete \<inter> bpath ` set (take 4 backups) = {})"
proof (intro conjI impI)
  assume "length backups \<le> 4"
  then show "rotate_decision backups now = Inr (bpath ` set backups, [])" by (simp add: rotate_decision_def)
next
  assume r: "rotate_decision backups now = Inr (to_keep, to_delete)"
  from rotate_cases[OF r] have top: "bpath ` set (take 4 backups) \<subseteq> to_keep"
    using keep_tiers_paths(1) by (elim disjE conjE exE) simp_all
  then show "bpath ` set (take 4 backups) \<subseteq> to_keep" .
  have del: "set to_delete \<subseteq> (\<lambda>b. (fname b, bpath b)) ` {b \<in> set backups. bpath b \<notin> to_keep}"
    using rotate_cases[OF r] by auto
  have split: "set backups = set (take 4 backups) \<union> set (drop 4 backups)"
    by (metis append_take_drop_id set_append)
  show "set to_delete \<subseteq> (\<lambda>b. (fname b, bpath b)) ` set (drop 4 backups)"
  proof
    fix x assume "x \<in> set to_delete"
    with del obtain b where b: "b \<in> set backups" "bpath b \<notin> to_keep" "x = (fname b, bpath b)" by auto
    with top have "b \<notin> set (take 4 backups)" by auto
    with b(1) split have "b \<in> set (drop 4 backups)" by auto
    with b(3) show "x \<in> (\<lambda>b. (fname b, bpath b)) ` set (drop 4 backups)" by auto
  qed
  show "snd ` set to_delete \<inter> bpath ` set (take 4 backups) = {}"
  proof (rule ccontr)
    assume "snd ` set to_delete \<inter> bpath ` set (take 4 backups) \<noteq> {}"
    then obtain x where x: "x \<in> set to_delete" "snd x \<in> bpath ` set (take 4 backups)" by auto
    from x(1) del obtain b where b: "bpath b \<notin> to_keep" "x = (fname b, bpath b)" by auto
    from x(2) top have "snd x \<in> to_keep" by auto
    with b show False by simp
  qed
qed

theorem rotate_keeps_four_most_recent_witness:
  "length (take 2 scenario_catalog) \<le> 4
   \<and> rotate_decision (take 2 scenario_catalog) (2024, 4, 1) =
       Inr (bpath ` set (take 2 scenario_catalog), [])
   \<and> rotate_decision scenario_catalog (2024, 4, 1) =
       Inr ({''backups/x/x.db.2024-03-29'', ''backups/x/x.db.2024-03-22'',
             ''backups/x/x.db.2024-03-15'', ''backups/x/x.db.2024-03-01'',
             ''backups/x/x.db.2024-02-10'', ''backups/x/x.db.2024-01-05''},
            [(''x.db.2024-01-20'', ''backups/x/x.db.2024-01-20'')])
   \<and> bpath ` set (take 4 scenario_catalog)
       \<subseteq> {''backups/x/x.db.2024-03-29'', ''backups/x/x.db.2024-03-22'',
             ''backups/x/x.db.2024-03-15'', ''backups/x/x.db.2024-03-01'',
             ''backups/x/x.db.2024-02-10'', ''backups/x/x.db.2024-01-05''}
   \<and> set [(''x.db.2024-01-20'', ''backups/x/x.db.2024-01-20'')]
       \<subseteq> (\<lambda>b. (fname b, bpath b)) ` set (drop 4 scenario_catalog)
   \<and> snd ` set [(''x.db.2024-01-20'', ''backups/x/x.db.2024-01-20'')]
         \<inter> bpath ` set (take 4 scenario_catalog) = {}"
proof -
  have short: "length (take 2 scenario_catalog) \<le> 4" by simp
  note a = rotate_keeps_four_most_recent[where backups="take 2 scenario_catalog"
      and now="(2024, 4, 1)", THEN conjunct1, rule_format, OF short]
  note b = rotate_keeps_four_most_recent[where backups=scenario_catalog
      and now="(2024, 4, 1)", THEN conjunct2, rule_format, OF scenario_decision]
  from short a b scenario_decision show ?thesis by blast
qed

subsection \<open>The decision is a partition\<close>

text \<open>
  Claim C1. For every catalogue, and every clock reading for which the date 365 days
  earlier exists (a reading from 0002-01-01 on), the rotation does not fail: it returns a
  decision, every entry of the catalogue is kept or deleted, no entry is both, and the
  keep set and the delete list hold entries of the catalogue only.
\<close>

theorem rotate_total_partition:
  assumes "365 < toordinal now"
  shows "\<exists>d. rotate_decision backups now = Inr d
           \<and> kept_entries backups d \<union> deleted_entries backups d = set backups
           \<and> kept_entries backups d \<inter> deleted_entries backups d = {}
           \<and> fst d \<subseteq> bpath ` set backups
           \<and> set (snd d) \<subseteq> (\<lambda>b. (fname b, bpath b)) ` set backups"
proof (cases "length backups \<le> 4")
  case True
  then have "rotate_decision backups now = Inr (bpath ` set backups, [])" by (simp add: rotate_decision_def)
  then show ?thesis by (auto simp: kept_entries_def deleted_entries_def)
next
  case False
  from assms have c: "date_minus_days now 365 = Inr (toordinal now - 365)"
    by (rule date_minus_days_ok)
  from keep_tiers_char[OF c, of backups] obtain K n vs where k: "keep_tiers backups now = Inr (K, n, vs)"
    by blast
  let ?del = "map (\<lambda>b. (fname b, bpath b)) (filter (\<lambda>b. bpath b \<notin> K) backups)"
  from False k have r: "rotate_decision backups now = Inr (K, ?del)" by (simp add: rotate_decision_def)
  have 1: "kept_entries backups (K, ?del) \<union> deleted_entries backups (K, ?del) = set backups"
    by (auto simp: kept_entries_def deleted_entries_def)
  have 2: "kept_entries backups (K, ?del) \<inter> deleted_entries backups (K, ?del) = {}"
    by (auto simp: kept_entries_def deleted_entries_def bpath_def)
  have 3: "K \<subseteq> bpath ` set backups" using keep_tiers_paths(2)[OF k] .
  have 4: "set ?del \<subseteq> (\<lambda>b. (fname b, bpath b)) ` set backups" by auto
  from r 1 2 3 4 show ?thesis by (intro exI[of _ "(K, ?del)"]) simp
qed

theorem rotate_total_partition_witness:
  "365 < toordinal (2024, 4, 1)
   \<and> (\<exists>d. rotate_decision scenario_catalog (2024, 4, 1) = Inr d
           \<and> kept_entries scenario_catalog d \<union> deleted_entries scenario_catalog d
               = set scenario_catalog
           \<and> kept_entries scenario_catalog d \<inter> deleted_entries scenario_catalog d = {}
           \<and> fst d \<subseteq> bpath ` set scenario_catalog
           \<and> set (snd d) \<subseteq> (\<lambda>b. (fname b, bpath b)) ` set scenario_catalog)"
proof -
  have h: "365 < toordinal (2024, 4, 1)" by (simp add: date_defs)
  from h rotate_total_partition[OF h, of scenario_catalog] show ?thesis by blast
qed

subsection \<open>File names with an impossible date\<close>

text \<open>
  Claim C2 says that a file name whose suffix has the shape of a date but names no
  calendar day is left out of the catalogue without an error. The code leaves out the
  names that do not match the pattern, but on a name such as
  \<^verbatim>\<open>database.db.2024-02-30\<close> the conversion raises ValueError, which neither
  \<^verbatim>\<open>parse_backup_date\<close> nor \<^verbatim>\<open>get_existing_backups\<close> catches: the listing fails.
\<close>

theorem impossible_date_fails_listing:
  "parse_backup_date ''database.db.bak'' = Inr None
   \<and> parse_backup_date ''database.db.2024-02-30'' = Inl ValueError
   \<and> get_existing_backups ''backups/app''
         (Some [''database.db.2024-02-28'', ''database.db.2024-02-30'']) = Inl ValueError
   \<and> get_existing_backups ''backups/app''
         (Some [''database.db.2024-02-28'', ''database.db.bak''])
       = Inr [(''database.db.2024-02-28'', (2024, 2, 28), ''backups/app/database.db.2024-02-28'')]"
  by (simp add: parse_defs date_defs catalogue_defs)

text \<open>
  A name that ends with a date and one newline is matched too, since \<^verbatim>\<open>$\<close> matches
  before a final newline: such a file is listed.
\<close>

lemma trailing_newline_listed:
  "parse_backup_date (''database.db.2024-02-28'' @ [CHR 0x0A]) = Inr (Some (2024, 2, 28))"
  by (simp add: parse_defs date_defs)

subsection \<open>The scenario of 2024-04-01\<close>

text \<open>
  Claim C8. With \<open>now\<close> = 2024-04-01 and backups dated 2024-03-29, 2024-03-22,
  2024-03-15, 2024-03-01, 2024-02-10, 2024-01-20 and 2024-01-05, the rotation keeps the
  six backups of 03-29, 03-22, 03-15, 03-01, 02-10 and 01-05 and deletes the one of
  01-20: 01-05 is the oldest of January and is kept in its place.
\<close>

theorem rotate_scenario:
  "rotate_backups ''backups/x''
     (Some [''x.db.2024-01-20'', ''x.db.2024-03-29'', ''x.db.2024-03-22'', ''notes.txt'',
            ''x.db.2024-03-15'', ''x.db.2024-03-01'', ''x.db.2024-02-10'', ''x.db.2024-01-05''])
     (2024, 4, 1)
   = Inr ({''backups/x/x.db.2024-03-29'', ''backups/x/x.db.2024-03-22'',
           ''backups/x/x.db.2024-03-15'', ''backups/x/x.db.2024-03-01'',
           ''backups/x/x.db.2024-02-10'', ''backups/x/x.db.2024-01-05''},
          [(''x.db.2024-01-20'', ''backups/x/x.db.2024-01-20'')])"
  by (simp add: rotate_backups_def scenario_listing scenario_decision)

subsection \<open>The monthly tier\<close>

text \<open>
  Claim C5. In a catalogue whose entries have distinct paths, at most 12 of the entries
  at index 4 and later are kept, and each of them has a date on or after the cut-off:
  its day number is at least that of \<open>now\<close> minus 365. An entry older than the cut-off is
  not kept by the monthly tier.
\<close>

theorem monthly_tier_bounds:
  assumes "rotate_decision backups now = Inr (to_keep, to_delete)"
    and "distinct (map bpath backups)"
  shows "length (filter (\<lambda>b. bpath b \<in> to_keep) (drop 4 backups)) \<le> 12
       \<and> (\<forall>b \<in> set (drop 4 backups).
             bpath b \<in> to_keep \<longrightarrow> toordinal now - 365 \<le> toordinal (bdate b))"
proof (cases "length backups \<le> 4")
  case True
  then show ?thesis by simp
next
  case False
  with rotate_cases[OF assms(1)] obtain n vs where k: "keep_tiers backups now = Inr (to_keep, n, vs)"
    by auto
  let ?m = "rest_months backups" and ?c = "toordinal now - 365"
  let ?E = "{k \<in> set vs. within_cutoff ?m ?c k}"
  let ?kept = "filter (\<lambda>b. bpath b \<in> to_keep) (drop 4 backups)"
  from keep_tiers_Inr[OF k] obtain rest where r:
    "sorted_keys_desc ?m = vs @ rest"
    "n = length (filter (within_cutoff ?m ?c) vs)" "n \<le> 12"
    by blast
  have "card ?E = n"
    using r(2) visited_keys(1)[OF r(1)] distinct_card[of "filter (within_cutoff ?m ?c) vs"] by simp
  with r(3) have E: "card ?E \<le> 12" by simp
  have sub: "set ?kept \<subseteq> oldest_in ?m ` ?E"
  proof
    fix b assume "b \<in> set ?kept"
    then have "b \<in> set (drop 4 backups)" "bpath b \<in> to_keep" by simp_all
    from monthly_pick[OF k assms(2) this] show "b \<in> oldest_in ?m ` ?E" by blast
  qed
  have "distinct (drop 4 backups)"
    using assms(2) by (metis distinct_drop distinct_map drop_map)
  then have "distinct ?kept" by (rule distinct_filter)
  then have "length ?kept = card (set ?kept)" by (rule distinct_card[symmetric])
  also have "\<dots> \<le> card (oldest_in ?m ` ?E)" using sub by (intro card_mono) simp_all
  also have "\<dots> \<le> card ?E" by (rule card_image_le) simp
  finally have 1: "length ?kept \<le> 12" using E by simp
  have 2: "\<forall>b \<in> set (drop 4 backups). bpath b \<in> to_keep \<longrightarrow> ?c \<le> toordinal (bdate b)"
  proof (intro ballI impI)
    fix b assume "b \<in> set (drop 4 backups)" "bpath b \<in> to_keep"
    from monthly_pick[OF k assms(2) this] show "?c \<le> toordinal (bdate b)"
      unfolding within_cutoff_def by blast
  qed
  from 1 2 show ?thesis by blast
qed

theorem monthly_tier_bounds_witness:
  "rotate_decision scenario_catalog (2024, 4, 1) =
       Inr ({''backups/x/x.db.2024-03-29'', ''backups/x/x.db.2024-03-22'',
             ''backups/x/x.db.2024-03-15'', ''backups/x/x.db.2024-03-01'',
             ''backups/x/x.db.2024-02-10'', ''backups/x/x.db.2024-01-05''},
            [(''x.db.2024-01-20'', ''backups/x/x.db.2024-01-20'')])
   \<and> distinct (map bpath scenario_catalog)
   \<and> length (filter (\<lambda>b. bpath b \<in> {''backups/x/x.db.2024-03-29'', ''backups/x/x.db.2024-03-22'',
             ''backups/x/x.db.2024-03-15'', ''backups/x/x.db.2024-03-01'',
             ''backups/x/x.db.2024-02-10'', ''backups/x/x.db.2024-01-05''})
         (drop 4 scenario_catalog)) \<le> 12
   \<and> toordinal (2024, 4, 1) - 365 \<le> toordinal (2024, 1, 5)"
proof -
  have d: "distinct (map bpath scenario_catalog)"
    by (simp add: scenario_catalog_def bpath_def)
  have b: "(''x.db.2024-01-05'', (2024, 1, 5), ''backups/x/x.db.2024-01-05'')
      \<in> set (drop 4 scenario_catalog)"
    by (simp add: scenario_catalog_def)
  note t = monthly_tier_bounds[OF scenario_decision d]
  from t have 1: "length (filter (\<lambda>b. bpath b \<in> {''backups/x/x.db.2024-03-29'', ''backups/x/x.db.2024-03-22'',
             ''backups/x/x.db.2024-03-15'', ''backups/x/x.db.2024-03-01'',
             ''backups/x/x.db.2024-02-10'', ''backups/x/x.db.2024-01-05''})
         (drop 4 scenario_catalog)) \<le> 12" by (rule conjunct1)
  from t[THEN conjunct2, rule_format, OF b]
  have 2: "toordinal (2024, 4, 1) - 365 \<le> toordinal (2024, 1, 5)"
    by (simp add: bpath_def bdate_def)
  from scenario_decision d 1 2 show ?thesis by blast
qed

subsection \<open>The size of the keep set\<close>

text \<open>
  Claim C9. Whatever the size of the catalogue, the keep set is finite and has at most 16
  paths: at most 4 of the most recent backups and at most 12 others, added by the monthly
  tier. In a catalogue with distinct paths at most 16 entries are kept.
\<close>

theorem keep_set_bound:
  assumes "rotate_decision backups now = Inr (to_keep, to_delete)"
  shows "finite to_keep \<and> card to_keep \<le> 16
       \<and> card (bpath ` set (take 4 backups)) \<le> 4
       \<and> card (to_keep - bpath ` set (take 4 backups)) \<le> 12
       \<and> (distinct (map bpath backups) \<longrightarrow>
            length (filter (\<lambda>b. bpath b \<in> to_keep) backups) \<le> 16)"
proof -
  have T: "card (bpath ` set (take 4 backups)) \<le> 4"
    using card_image_le[of "set (take 4 backups)" bpath] card_length[of "take 4 backups"] by simp
  have K: "finite to_keep \<and> card to_keep \<le> 16 \<and> card (to_keep - bpath ` set (take 4 backups)) \<le> 12"
  proof (cases "length backups \<le> 4")
    case True
    with rotate_cases[OF assms] have e: "to_keep = bpath ` set backups" by auto
    from True have t: "take 4 backups = backups" by simp
    from T have "card to_keep \<le> 4" unfolding e t .
    then show ?thesis using e t by simp
  next
    case False
    with rotate_cases[OF assms] obtain n vs where k: "keep_tiers backups now = Inr (to_keep, n, vs)"
      by auto
    from card_month_picks[OF k] show ?thesis by simp
  qed
  have D: "length (filter (\<lambda>b. bpath b \<in> to_keep) backups) \<le> 16" if d: "distinct (map bpath backups)"
  proof -
    let ?kept = "filter (\<lambda>b. bpath b \<in> to_keep) backups"
    have "distinct (map bpath ?kept)" using d by (rule distinct_map_filter)
    then have "length ?kept = card (bpath ` set ?kept)"
      using distinct_card[of "map bpath ?kept"] by simp
    also have "\<dots> \<le> card to_keep" using K by (intro card_mono) auto
    finally show ?thesis using K by simp
  qed
  from T K D show ?thesis by blast
qed

theorem keep_set_bound_witness:
  "rotate_decision scenario_catalog (2024, 4, 1) =
       Inr ({''backups/x/x.db.2024-03-29'', ''backups/x/x.db.2024-03-22'',
             ''backups/x/x.db.2024-03-15'', ''backups/x/x.db.2024-03-01'',
             ''backups/x/x.db.2024-02-10'', ''backups/x/x.db.2024-01-05''},
            [(''x.db.2024-01-20'', ''backups/x/x.db.2024-01-20'')])
   \<and> distinct (map bpath scenario_catalog)
   \<and> card {''backups/x/x.db.2024-03-29'', ''backups/x/x.db.2024-03-22'',
             ''backups/x/x.db.2024-03-15'', ''backups/x/x.db.2024-03-01'',
             ''backups/x/x.db.2024-02-10'', ''backups/x/x.db.2024-01-05''} \<le> 16
   \<and> length (filter (\<lambda>b. bpath b \<in> {''backups/x/x.db.2024-03-29'', ''backups/x/x.db.2024-03-22'',
             ''backups/x/x.db.2024-03-15'', ''backups/x/x.db.2024-03-01'',
             ''backups/x/x.db.2024-02-10'', ''backups/x/x.db.2024-01-05''})
         scenario_catalog) \<le> 16"
proof -
  have d: "distinct (map bpath scenario_catalog)"
    by (simp add: scenario_catalog_def bpath_def)
  note t = keep_set_bound[OF scenario_decision]
  from t have 1: "card {''backups/x/x.db.2024-03-29'', ''backups/x/x.db.2024-03-22'',
             ''backups/x/x.db.2024-03-15'', ''backups/x/x.db.2024-03-01'',
             ''backups/x/x.db.2024-02-10'', ''backups/x/x.db.2024-01-05''} \<le> 16" by blast
  from t d have 2: "length (filter (\<lambda>b. bpath b \<in> {''backups/x/x.db.2024-03-29'', ''backups/x/x.db.2024-03-22'',
             ''backups/x/x.db.2024-03-15'', ''backups/x/x.db.2024-03-01'',
             ''backups/x/x.db.2024-02-10'', ''backups/x/x.db.2024-01-05''})
         scenario_catalog) \<le> 16" by blast
  from scenario_decision d 1 2 show ?thesis by blast
qed

subsection \<open>The order and the end of the loop over the months\<close>

text \<open>
  Claim C7 says that the loop goes on through all the month groups even after twelve
  months have been kept. The source leaves the loop (\<^verbatim>\<open>break\<close>) as soon as the counter
  is 12: with thirteen months within the cut-off the thirteenth group, 2023-04, is not
  evaluated.
\<close>

theorem loop_stops_at_cap:
  "sorted_keys_desc (rest_months thirteen_months_catalog) =
     [(2024, 4), (2024, 3), (2024, 2), (2024, 1), (2023, 12), (2023, 11), (2023, 10),
      (2023, 9), (2023, 8), (2023, 7), (2023, 6), (2023, 5), (2023, 4)]
   \<and> within_cutoff (rest_months thirteen_months_catalog) (toordinal (2024, 4, 15) - 365) (2023, 4)
   \<and> keep_tiers thirteen_months_catalog (2024, 4, 15) =
     Inr ({''backups/x/x.db.2024-04-15'', ''backups/x/x.db.2024-04-14'',
           ''backups/x/x.db.2024-04-13'', ''backups/x/x.db.2024-04-12'',
           ''backups/x/x.db.2024-04-11'', ''backups/x/x.db.2024-03-10'',
           ''backups/x/x.db.2024-02-10'', ''backups/x/x.db.2024-01-10'',
           ''backups/x/x.db.2023-12-10'', ''backups/x/x.db.2023-11-10'',
           ''backups/x/x.db.2023-10-10'', ''backups/x/x.db.2023-09-10'',
           ''backups/x/x.db.2023-08-10'', ''backups/x/x.db.2023-07-10'',
           ''backups/x/x.db.2023-06-10'', ''backups/x/x.db.2023-05-10''},
          12,
          [(2024, 4), (2024, 3), (2024, 2), (2024, 1), (2023, 12), (2023, 11), (2023, 10),
           (2023, 9), (2023, 8), (2023, 7), (2023, 6), (2023, 5)])"
  using thirteen_keys thirteen_last_within thirteen_tiers by (intro conjI)

text \<open>
  Claim C7 as amended. The month keys of the backups after the first four are processed
  in descending order, each once, and the groups evaluated are a prefix of that order.
  The counter is the number of evaluated groups whose oldest backup is within the cut-off:
  a group that fails the cut-off does not count, and the groups after it are still
  evaluated. The counter never exceeds 12; while it is below 12 every group is evaluated,
  and the loop ends before the last group only when the counter is 12, right after the
  twelfth month kept. Once the counter is 12 the loop stops: the last group evaluated is
  the twelfth month kept, and the groups after it in the order are not evaluated, whether
  they are within the cut-off or not. The keep set is the paths of the first four backups
  and of the oldest backup of each evaluated group within the cut-off.
\<close>

theorem monthly_groups_processing:
  assumes "keep_tiers backups now = Inr (to_keep, months_kept, visited)"
  shows "sorted (rev (sorted_keys_desc (rest_months backups)))
       \<and> distinct (sorted_keys_desc (rest_months backups))
       \<and> set (sorted_keys_desc (rest_months backups)) = month_of ` set (drop 4 backups)
       \<and> (\<exists>rest. sorted_keys_desc (rest_months backups) = visited @ rest)
       \<and> months_kept =
           length (filter (within_cutoff (rest_months backups) (toordinal now - 365)) visited)
       \<and> months_kept \<le> 12
       \<and> (months_kept < 12 \<longrightarrow> visited = sorted_keys_desc (rest_months backups))
       \<and> (visited \<noteq> sorted_keys_desc (rest_months backups) \<longrightarrow>
            months_kept = 12 \<and> visited \<noteq> []
            \<and> within_cutoff (rest_months backups) (toordinal now - 365) (last visited))
       \<and> (months_kept = 12 \<longrightarrow>
            visited \<noteq> []
            \<and> within_cutoff (rest_months backups) (toordinal now - 365) (last visited))
       \<and> (\<forall>rest. sorted_keys_desc (rest_months backups) = visited @ rest \<longrightarrow>
            set rest \<inter> set visited = {})
       \<and> to_keep = bpath ` set (take 4 backups)
           \<union> bpath ` oldest_in (rest_months backups) `
               {k \<in> set visited. within_cutoff (rest_months backups) (toordinal now - 365) k}"
proof -
  let ?m = "rest_months backups" and ?c = "toordinal now - 365"
  from keep_tiers_Inr[OF assms] obtain rest where r:
    "sorted_keys_desc ?m = visited @ rest"
    "to_keep = bpath ` set (take 4 backups)
           \<union> bpath ` oldest_in ?m ` {k \<in> set visited. within_cutoff ?m ?c k}"
    "months_kept = length (filter (within_cutoff ?m ?c) visited)"
    "months_kept < 12 \<longrightarrow> rest = []"
    "months_kept \<le> 12"
    "rest \<noteq> [] \<longrightarrow> visited \<noteq> [] \<and> within_cutoff ?m ?c (last visited)"
    by blast
  have 1: "sorted (rev (sorted_keys_desc ?m))" by (rule sorted_sorted_keys_desc)
  have 2: "distinct (sorted_keys_desc ?m)"
    by (simp add: distinct_sorted_keys_desc rest_months_def distinct_keys_rest)
  have 3: "set (sorted_keys_desc ?m) = month_of ` set (drop 4 backups)"
    by (simp add: rest_months_def keys_rest)
  have 4: "\<exists>rest. sorted_keys_desc ?m = visited @ rest" using r(1) by blast
  have 7: "months_kept < 12 \<longrightarrow> visited = sorted_keys_desc ?m" using r(1,4) by simp
  have 8: "visited \<noteq> sorted_keys_desc ?m \<longrightarrow>
            months_kept = 12 \<and> visited \<noteq> [] \<and> within_cutoff ?m ?c (last visited)"
  proof
    assume "visited \<noteq> sorted_keys_desc ?m"
    with r(1) have ne: "rest \<noteq> []" by auto
    with r(4) have "\<not> months_kept < 12" by blast
    with r(5) have "months_kept = 12" by simp
    with ne r(6) show "months_kept = 12 \<and> visited \<noteq> [] \<and> within_cutoff ?m ?c (last visited)"
      by blast
  qed
  have 9: "months_kept = 12 \<longrightarrow> visited \<noteq> [] \<and> within_cutoff ?m ?c (last visited)"
    using keep_tiers_last_kept[of backups now to_keep visited] assms by blast
  have 10: "\<forall>rest. sorted_keys_desc ?m = visited @ rest \<longrightarrow> set rest \<inter> set visited = {}"
  proof (intro allI impI)
    fix rest' assume "sorted_keys_desc ?m = visited @ rest'"
    with 2 have "distinct (visited @ rest')" by simp
    then show "set rest' \<inter> set visited = {}" by auto
  qed
  from 1 2 3 4 r(3) r(5) 7 8 9 10 r(2) show ?thesis by blast
qed

theorem monthly_groups_processing_witness:
  "keep_tiers thirteen_months_catalog (2024, 4, 15) =
     Inr ({''backups/x/x.db.2024-04-15'', ''backups/x/x.db.2024-04-14'',
           ''backups/x/x.db.2024-04-13'', ''backups/x/x.db.2024-04-12'',
           ''backups/x/x.db.2024-04-11'', ''backups/x/x.db.2024-03-10'',
           ''backups/x/x.db.2024-02-10'', ''backups/x/x.db.2024-01-10'',
           ''backups/x/x.db.2023-12-10'', ''backups/x/x.db.2023-11-10'',
           ''backups/x/x.db.2023-10-10'', ''backups/x/x.db.2023-09-10'',
           ''backups/x/x.db.2023-08-10'', ''backups/x/x.db.2023-07-10'',
           ''backups/x/x.db.2023-06-10'', ''backups/x/x.db.2023-05-10''},
          12,
          [(2024, 4), (2024, 3), (2024, 2), (2024, 1), (2023, 12), (2023, 11), (2023, 10),
           (2023, 9), (2023, 8), (2023, 7), (2023, 6), (2023, 5)])
   \<and> sorted (rev (sorted_keys_desc (rest_months thirteen_months_catalog)))
   \<and> distinct (sorted_keys_desc (rest_months thirteen_months_catalog))
   \<and> (\<exists>rest. sorted_keys_desc (rest_months thirteen_months_catalog) =
          [(2024, 4), (2024, 3), (2024, 2), (2024, 1), (2023, 12), (2023, 11), (2023, 10),
           (2023, 9), (2023, 8), (2023, 7), (2023, 6), (2023, 5)] @ rest)
   \<and> (12::nat) =
       length (filter (within_cutoff (rest_months thirteen_months_catalog)
                        (toordinal (2024, 4, 15) - 365))
          [(2024, 4), (2024, 3), (2024, 2), (2024, 1), (2023, 12), (2023, 11), (2023, 10),
           (2023, 9), (2023, 8), (2023, 7), (2023, 6), (2023, 5)])
   \<and> keep_tiers twelve_months_catalog (2024, 4, 15) =
     Inr ({''backups/x/x.db.2024-04-15'', ''backups/x/x.db.2024-04-14'',
           ''backups/x/x.db.2024-04-13'', ''backups/x/x.db.2024-04-12'',
           ''backups/x/x.db.2024-04-11'', ''backups/x/x.db.2024-03-10'',
           ''backups/x/x.db.2024-02-10'', ''backups/x/x.db.2024-01-10'',
           ''backups/x/x.db.2023-12-10'', ''backups/x/x.db.2023-11-10'',
           ''backups/x/x.db.2023-10-10'', ''backups/x/x.db.2023-09-10'',
           ''backups/x/x.db.2023-08-10'', ''backups/x/x.db.2023-07-10'',
           ''backups/x/x.db.2023-06-10'', ''backups/x/x.db.2023-05-10''},
          12,
          [(2024, 4), (2024, 3), (2024, 2), (2024, 1), (2023, 12), (2023, 11), (2023, 10),
           (2023, 9), (2023, 8), (2023, 7), (2023, 6), (2023, 5)])
   \<and> sorted_keys_desc (rest_months twelve_months_catalog) =
          [(2024, 4), (2024, 3), (2024, 2), (2024, 1), (2023, 12), (2023, 11), (2023, 10),
           (2023, 9), (2023, 8), (2023, 7), (2023, 6), (2023, 5)] @ [(2023, 4)]
   \<and> within_cutoff (rest_months twelve_months_catalog) (toordinal (2024, 4, 15) - 365)
         (last [(2024, 4), (2024, 3), (2024, 2), (2024, 1), (2023, 12), (2023, 11), (2023, 10),
           (2023, 9), (2023, 8), (2023, 7), (2023, 6), (2023, 5)])
   \<and> set [(2023, 4) :: month_key]
       \<inter> set [(2024, 4), (2024, 3), (2024, 2), (2024, 1), (2023, 12), (2023, 11), (2023, 10),
           (2023, 9), (2023, 8), (2023, 7), (2023, 6), (2023, 5)] = {}"
proof -
  note a = monthly_groups_processing[OF thirteen_tiers]
  note b = monthly_groups_processing[OF twelve_tiers]
  have k: "sorted_keys_desc (rest_months twelve_months_catalog) =
          [(2024, 4), (2024, 3), (2024, 2), (2024, 1), (2023, 12), (2023, 11), (2023, 10),
           (2023, 9), (2023, 8), (2023, 7), (2023, 6), (2023, 5)] @ [(2023, 4)]"
    using twelve_keys by simp
  note 1 = a[THEN conjunct1]
  note 2 = a[THEN conjunct2, THEN conjunct1]
  note 3 = a[THEN conjunct2, THEN conjunct2, THEN conjunct2, THEN conjunct1]
  note 4 = a[THEN conjunct2, THEN conjunct2, THEN conjunct2, THEN conjunct2, THEN conjunct1]
  note b9 = b[THEN conjunct2, THEN conjunct2, THEN conjunct2, THEN conjunct2, THEN conjunct2,
      THEN conjunct2, THEN conjunct2, THEN conjunct2, THEN conjunct1, rule_format, OF refl]
  note 5 = b9[THEN conjunct2]
  note 6 = b[THEN conjunct2, THEN conjunct2, THEN conjunct2, THEN conjunct2, THEN conjunct2,
      THEN conjunct2, THEN conjunct2, THEN conjunct2, THEN conjunct2, THEN conjunct1,
      rule_format, OF k]
  show ?thesis
    by (intro conjI) (rule thirteen_tiers 1 2 3 4 twelve_tiers k 5 6)+
qed

subsection \<open>Rotating twice\<close>

text \<open>
  Claim C6. For a catalogue whose entries have distinct paths and a fixed \<open>now\<close>, the
  rotation of the catalogue made of the kept entries of a first rotation, in their order,
  gives the same keep set and an empty delete list.
\<close>

theorem rotate_idempotent:
  assumes "rotate_decision backups now = Inr (to_keep, to_delete)"
    and "distinct (map bpath backups)"
  shows "rotate_decision (filter (\<lambda>b. bpath b \<in> to_keep) backups) now = Inr (to_keep, [])"
proof (cases "length backups \<le> 4")
  case True
  with rotate_cases[OF assms(1)] have e: "to_keep = bpath ` set backups" by auto
  then have "filter (\<lambda>b. bpath b \<in> to_keep) backups = backups" by simp
  with True e show ?thesis by (simp add: rotate_decision_def)
next
  case False
  let ?P = "\<lambda>b. bpath b \<in> to_keep"
  let ?bs' = "filter ?P backups" and ?R' = "filter ?P (drop 4 backups)"
  from False rotate_cases[OF assms(1)] obtain n vs
    where k: "keep_tiers backups now = Inr (to_keep, n, vs)" by auto
  have top: "bpath ` set (take 4 backups) \<subseteq> to_keep" using keep_tiers_paths(1)[OF k] .
  have split: "?bs' = take 4 backups @ ?R'" using filter_kept_split[OF top] .
  have paths: "bpath ` set ?bs' = to_keep" using keep_tiers_paths(2)[OF k] by auto
  have none: "filter (\<lambda>b. bpath b \<notin> to_keep) ?bs' = []" by (simp add: filter_empty_conv)
  show ?thesis
  proof (cases "?R' = []")
    case True
    with split have "length ?bs' \<le> 4" by simp
    then have "rotate_decision ?bs' now = Inr (bpath ` set ?bs', [])"
      by (simp add: rotate_decision_def)
    with paths show ?thesis by simp
  next
    case ne: False
    from False have "length (take 4 backups) = 4" by simp
    moreover from ne have "0 < length ?R'" by simp
    moreover from split have "length ?bs' = length (take 4 backups) + length ?R'"
      by (metis length_append)
    ultimately have long: "\<not> length ?bs' \<le> 4" by linarith
    from keep_tiers_rerun[OF k assms(2) ne] obtain vs'
      where "keep_tiers ?bs' now = Inr (to_keep, n, vs')" by blast
    with long none show ?thesis by (simp add: rotate_decision_def)
  qed
qed

theorem rotate_idempotent_witness:
  "rotate_decision scenario_catalog (2024, 4, 1) =
       Inr ({''backups/x/x.db.2024-03-29'', ''backups/x/x.db.2024-03-22'',
             ''backups/x/x.db.2024-03-15'', ''backups/x/x.db.2024-03-01'',
             ''backups/x/x.db.2024-02-10'', ''backups/x/x.db.2024-01-05''},
            [(''x.db.2024-01-20'', ''backups/x/x.db.2024-01-20'')])
   \<and> distinct (map bpath scenario_catalog)
   \<and> rotate_decision
         (filter (\<lambda>b. bpath b \<in> {''backups/x/x.db.2024-03-29'', ''backups/x/x.db.2024-03-22'',
             ''backups/x/x.db.2024-03-15'', ''backups/x/x.db.2024-03-01'',
             ''backups/x/x.db.2024-02-10'', ''backups/x/x.db.2024-01-05''}) scenario_catalog)
         (2024, 4, 1) =
       Inr ({''backups/x/x.db.2024-03-29'', ''backups/x/x.db.2024-03-22'',
             ''backups/x/x.db.2024-03-15'', ''backups/x/x.db.2024-03-01'',
             ''backups/x/x.db.2024-02-10'', ''backups/x/x.db.2024-01-05''}, [])"
proof -
  have d: "distinct (map bpath scenario_catalog)"
    by (simp add: scenario_catalog_def bpath_def)
  from scenario_decision d rotate_idempotent[OF scenario_decision d] show ?thesis
    by (intro conjI)
qed

subsection \<open>The order of the listing\<close>

text \<open>
  Claim C10 says that the order of the listing can matter only when two files share the
  oldest date of a month. It also matters when two files of one date stand at positions
  3 and 4 of the catalogue: the sort keeps them in the order of the listing, the first
  is one of the four most recent and the second goes to the monthly tier, where an older
  backup of the month, 2024-03-01 below, is kept in its place.
\<close>

theorem listing_order_matters_at_fourth:
  "mset [''a.db.2024-03-29'', ''a.db.2024-03-28'', ''a.db.2024-03-27'',
         ''a.db.2024-03-20'', ''b.db.2024-03-20'', ''a.db.2024-03-01'']
     = mset [''a.db.2024-03-29'', ''a.db.2024-03-28'', ''a.db.2024-03-27'',
             ''b.db.2024-03-20'', ''a.db.2024-03-20'', ''a.db.2024-03-01'']
   \<and> rotate_backups ''backups/x''
         (Some [''a.db.2024-03-29'', ''a.db.2024-03-28'', ''a.db.2024-03-27'',
                ''a.db.2024-03-20'', ''b.db.2024-03-20'', ''a.db.2024-03-01''])
         (2024, 4, 1)
       = Inr ({''backups/x/a.db.2024-03-29'', ''backups/x/a.db.2024-03-28'',
               ''backups/x/a.db.2024-03-27'', ''backups/x/a.db.2024-03-20'',
               ''backups/x/a.db.2024-03-01''},
              [(''b.db.2024-03-20'', ''backups/x/b.db.2024-03-20'')])
   \<and> rotate_backups ''backups/x''
         (Some [''a.db.2024-03-29'', ''a.db.2024-03-28'', ''a.db.2024-03-27'',
                ''b.db.2024-03-20'', ''a.db.2024-03-20'', ''a.db.2024-03-01''])
         (2024, 4, 1)
       = Inr ({''backups/x/a.db.2024-03-29'', ''backups/x/a.db.2024-03-28'',
               ''backups/x/a.db.2024-03-27'', ''backups/x/b.db.2024-03-20'',
               ''backups/x/a.db.2024-03-01''},
              [(''a.db.2024-03-20'', ''backups/x/a.db.2024-03-20'')])"
  by (simp add: parse_defs date_defs catalogue_defs rotate_defs insert_commute)

text \<open>
  Claim C10 as amended. If no two entries of the catalogue have the same date, the
  decision depends on the set of files and on \<open>now\<close> only: two listings of the same
  files in different orders give the same catalogue and the same keep set and delete
  list. The order of the listing can matter only when two files share a date.
\<close>

theorem rotation_independent_of_listing_order:
  assumes "mset fs1 = mset fs2"
    and "get_existing_backups app_dir (Some fs1) = Inr backups"
    and "distinct (map bdate backups)"
  shows "get_existing_backups app_dir (Some fs2) = Inr backups
       \<and> rotate_backups app_dir (Some fs2) now = rotate_backups app_dir (Some fs1) now"
proof -
  from assms(3) have "inj_on bdate (set backups)" by (simp add: distinct_map)
  from get_existing_backups_perm[OF assms(1,2) this] assms(2) show ?thesis
    by (simp add: rotate_backups_def)
qed

theorem rotation_independent_of_listing_order_witness:
  "mset [''x.db.2024-01-20'', ''x.db.2024-03-29'', ''x.db.2024-03-22'', ''notes.txt'',
         ''x.db.2024-03-15'', ''x.db.2024-03-01'', ''x.db.2024-02-10'', ''x.db.2024-01-05'']
     = mset [''x.db.2024-01-05'', ''x.db.2024-02-10'', ''x.db.2024-03-01'', ''x.db.2024-03-15'',
             ''notes.txt'', ''x.db.2024-03-22'', ''x.db.2024-03-29'', ''x.db.2024-01-20'']
   \<and> get_existing_backups ''backups/x''
         (Some [''x.db.2024-01-20'', ''x.db.2024-03-29'', ''x.db.2024-03-22'', ''notes.txt'',
            ''x.db.2024-03-15'', ''x.db.2024-03-01'', ''x.db.2024-02-10'', ''x.db.2024-01-05''])
       = Inr scenario_catalog
   \<and> distinct (map bdate scenario_catalog)
   \<and> get_existing_backups ''backups/x''
         (Some [''x.db.2024-01-05'', ''x.db.2024-02-10'', ''x.db.2024-03-01'', ''x.db.2024-03-15'',
             ''notes.txt'', ''x.db.2024-03-22'', ''x.db.2024-03-29'', ''x.db.2024-01-20''])
       = Inr scenario_catalog
   \<and> rotate_backups ''backups/x''
         (Some [''x.db.2024-01-05'', ''x.db.2024-02-10'', ''x.db.2024-03-01'', ''x.db.2024-03-15'',
             ''notes.txt'', ''x.db.2024-03-22'', ''x.db.2024-03-29'', ''x.db.2024-01-20''])
         (2024, 4, 1)
       = rotate_backups ''backups/x''
         (Some [''x.db.2024-01-20'', ''x.db.2024-03-29'', ''x.db.2024-03-22'', ''notes.txt'',
            ''x.db.2024-03-15'', ''x.db.2024-03-01'', ''x.db.2024-02-10'', ''x.db.2024-01-05''])
         (2024, 4, 1)"
proof -
  have m: "mset [''x.db.2024-01-20'', ''x.db.2024-03-29'', ''x.db.2024-03-22'', ''notes.txt'',
         ''x.db.2024-03-15'', ''x.db.2024-03-01'', ''x.db.2024-02-10'', ''x.db.2024-01-05'']
     = mset [''x.db.2024-01-05'', ''x.db.2024-02-10'', ''x.db.2024-03-01'', ''x.db.2024-03-15'',
             ''notes.txt'', ''x.db.2024-03-22'', ''x.db.2024-03-29'', ''x.db.2024-01-20'']"
    by simp
  have d: "distinct (map bdate scenario_catalog)"
    by (simp add: scenario_catalog_def bdate_def)
  from m scenario_listing d
    rotation_independent_of_listing_order[OF m scenario_listing d, of "(2024, 4, 1)"]
  show ?thesis by (intro conjI) blast+
qed

end
